theory Spec2Isabelle
  imports Main "HOL-Library.Monad_Syntax" "HOL-Library.Multiset"
begin

section \<open>Data model of the red-black tree\<close>

text \<open>
  The Go package keeps the tree as a graph of heap-allocated \<open>Node\<close> structs linked by
  \<open>Left\<close>, \<open>Right\<close> and \<open>Parent\<close> pointers. The model keeps the same graph in an
  explicit store: a pointer is \<open>None\<close> (Go's \<open>nil\<close>) or \<open>Some a\<close> for the address \<open>a\<close>
  of a node, and the store is the list of all nodes allocated so far, indexed by address.
  Every function runs in the option monad: \<open>None\<close> stands for a run that produces no
  result, that is a nil-pointer panic, or a loop that does not come to an end.
\<close>

type_synonym ptr = "nat option"

text \<open>\<open>type color bool\<close> with \<open>black, red color = true, false\<close>.\<close>

abbreviation black :: bool where "black \<equiv> True"
abbreviation red :: bool where "red \<equiv> False"

record ('k, 'v) Node =
  Key :: 'k
  Value :: 'v
  color :: bool
  Left :: ptr
  Right :: ptr
  Parent :: ptr

text \<open>
  The \<open>Tree\<close> struct, together with the store of the nodes. The field \<open>size\<close> of the source is
  \<open>size'\<close> here; it is a Go \<open>int\<close>, which the node count of a tree that fits in memory
  never overflows, so it is an unbounded integer in the model. The comparator is the
  function value kept in the struct.
\<close>

record ('k, 'v) Tree =
  Root :: ptr
  size' :: int
  Comparator :: "'k \<Rightarrow> 'k \<Rightarrow> int"
  nodes :: "('k, 'v) Node list"

definition NewWith :: "('k \<Rightarrow> 'k \<Rightarrow> int) \<Rightarrow> ('k, 'v) Tree" where
  "NewWith comparator = \<lparr>Root = None, size' = 0, Comparator = comparator, nodes = []\<rparr>"

text \<open>Reading through a pointer, writing the fields of the node behind a pointer, and
  allocating a node (\<open>&Node{...}\<close>).\<close>

definition deref :: "('k, 'v) Tree \<Rightarrow> ptr \<Rightarrow> ('k, 'v) Node option" where
  "deref t p =
     (case p of None \<Rightarrow> None
      | Some a \<Rightarrow> if a < length (nodes t) then Some (nodes t ! a) else None)"

definition store :: "('k, 'v) Tree \<Rightarrow> ptr \<Rightarrow> (('k, 'v) Node \<Rightarrow> ('k, 'v) Node) \<Rightarrow> ('k, 'v) Tree option" where
  "store t p f =
     (case p of None \<Rightarrow> None
      | Some a \<Rightarrow> if a < length (nodes t)
                  then Some (t\<lparr>nodes := (nodes t)[a := f (nodes t ! a)]\<rparr>) else None)"

definition new_node :: "('k, 'v) Tree \<Rightarrow> ('k, 'v) Node \<Rightarrow> ('k, 'v) Tree \<times> ptr" where
  "new_node t n = (t\<lparr>nodes := nodes t @ [n]\<rparr>, Some (length (nodes t)))"

text \<open>Go's \<open>a && b\<close>: \<open>b\<close> is evaluated only when \<open>a\<close> is true.\<close>

definition sc_and :: "bool option \<Rightarrow> bool option \<Rightarrow> bool option" where
  "sc_and a b = (case a of None \<Rightarrow> None | Some x \<Rightarrow> if x then b else Some False)"

section \<open>Node helpers\<close>

definition nodeColor :: "('k, 'v) Tree \<Rightarrow> ptr \<Rightarrow> bool option" where
  "nodeColor t node = (if node = None then Some black else map_option color (deref t node))"

definition grandparent :: "('k, 'v) Tree \<Rightarrow> ptr \<Rightarrow> ptr option" where
  "grandparent t node =
     (if node = None then Some None
      else do {
        n \<leftarrow> deref t node;
        if Parent n = None then Some None
        else do { p \<leftarrow> deref t (Parent n); Some (Parent p) } })"

definition sibling :: "('k, 'v) Tree \<Rightarrow> ptr \<Rightarrow> ptr option" where
  "sibling t node =
     (if node = None then Some None
      else do {
        n \<leftarrow> deref t node;
        if Parent n = None then Some None
        else do {
          p \<leftarrow> deref t (Parent n);
          if node = Left p then Some (Right p) else Some (Left p) } })"

definition uncle :: "('k, 'v) Tree \<Rightarrow> ptr \<Rightarrow> ptr option" where
  "uncle t node =
     (if node = None then Some None
      else do {
        n \<leftarrow> deref t node;
        if Parent n = None then Some None
        else do {
          p \<leftarrow> deref t (Parent n);
          if Parent p = None then Some None else sibling t (Parent n) } })"

definition replaceNode :: "('k, 'v) Tree \<Rightarrow> ptr \<Rightarrow> ptr \<Rightarrow> ('k, 'v) Tree option" where
  "replaceNode t old new = do {
     od \<leftarrow> deref t old;
     t1 \<leftarrow> (if Parent od = None then Some (t\<lparr>Root := new\<rparr>)
            else do {
              p \<leftarrow> deref t (Parent od);
              if old = Left p then store t (Parent od) (\<lambda>n. n\<lparr>Left := new\<rparr>)
              else store t (Parent od) (\<lambda>n. n\<lparr>Right := new\<rparr>) });
     if new \<noteq> None then do {
       o1 \<leftarrow> deref t1 old;
       store t1 new (\<lambda>n. n\<lparr>Parent := Parent o1\<rparr>) }
     else Some t1 }"

definition rotateLeft :: "('k, 'v) Tree \<Rightarrow> ptr \<Rightarrow> ('k, 'v) Tree option" where
  "rotateLeft t node = do {
     n \<leftarrow> deref t node;
     let right = Right n;
     t1 \<leftarrow> replaceNode t node right;
     r1 \<leftarrow> deref t1 right;
     t2 \<leftarrow> store t1 node (\<lambda>n. n\<lparr>Right := Left r1\<rparr>);
     r2 \<leftarrow> deref t2 right;
     t3 \<leftarrow> (if Left r2 \<noteq> None then store t2 (Left r2) (\<lambda>n. n\<lparr>Parent := node\<rparr>) else Some t2);
     t4 \<leftarrow> store t3 right (\<lambda>n. n\<lparr>Left := node\<rparr>);
     store t4 node (\<lambda>n. n\<lparr>Parent := right\<rparr>) }"

definition rotateRight :: "('k, 'v) Tree \<Rightarrow> ptr \<Rightarrow> ('k, 'v) Tree option" where
  "rotateRight t node = do {
     n \<leftarrow> deref t node;
     let left = Left n;
     t1 \<leftarrow> replaceNode t node left;
     l1 \<leftarrow> deref t1 left;
     t2 \<leftarrow> store t1 node (\<lambda>n. n\<lparr>Left := Right l1\<rparr>);
     l2 \<leftarrow> deref t2 left;
     t3 \<leftarrow> (if Right l2 \<noteq> None then store t2 (Right l2) (\<lambda>n. n\<lparr>Parent := node\<rparr>) else Some t2);
     t4 \<leftarrow> store t3 left (\<lambda>n. n\<lparr>Right := node\<rparr>);
     store t4 node (\<lambda>n. n\<lparr>Parent := left\<rparr>) }"

section \<open>Insertion\<close>

definition insertCase5 :: "('k, 'v) Tree \<Rightarrow> ptr \<Rightarrow> ('k, 'v) Tree option" where
  "insertCase5 t node = do {
     n \<leftarrow> deref t node;
     t1 \<leftarrow> store t (Parent n) (\<lambda>n. n\<lparr>color := black\<rparr>);
     gp \<leftarrow> grandparent t1 node;
     t2 \<leftarrow> store t1 gp (\<lambda>n. n\<lparr>color := red\<rparr>);
     n2 \<leftarrow> deref t2 node;
     p2 \<leftarrow> deref t2 (Parent n2);
     g2 \<leftarrow> deref t2 gp;
     if node = Left p2 \<and> Parent n2 = Left g2 then rotateRight t2 gp
     else if node = Right p2 \<and> Parent n2 = Right g2 then rotateLeft t2 gp
     else Some t2 }"

definition insertCase4 :: "('k, 'v) Tree \<Rightarrow> ptr \<Rightarrow> ('k, 'v) Tree option" where
  "insertCase4 t node = do {
     gp \<leftarrow> grandparent t node;
     n \<leftarrow> deref t node;
     p \<leftarrow> deref t (Parent n);
     c1 \<leftarrow> sc_and (Some (node = Right p)) (map_option (\<lambda>g. Parent n = Left g) (deref t gp));
     if c1 then do {
       t1 \<leftarrow> rotateLeft t (Parent n);
       n1 \<leftarrow> deref t1 node;
       insertCase5 t1 (Left n1) }
     else do {
       c2 \<leftarrow> sc_and (Some (node = Left p)) (map_option (\<lambda>g. Parent n = Right g) (deref t gp));
       if c2 then do {
         t1 \<leftarrow> rotateRight t (Parent n);
         n1 \<leftarrow> deref t1 node;
         insertCase5 t1 (Right n1) }
       else insertCase5 t node } }"

text \<open>
  \<open>insertCase1\<close>, \<open>insertCase2\<close> and \<open>insertCase3\<close> call each other in a cycle
  (case 3 restarts case 1 at the grandparent). The recursive function is \<open>insertCase1\<close>
  with the bodies of the other two in place; \<open>insertCase2\<close> and \<open>insertCase3\<close> are
  defined after it, and \<open>insertCase1_eq\<close> and \<open>insertCase2_eq\<close> below
  restate the source's three bodies.
\<close>

partial_function (option) insertCase1 :: "('k, 'v) Tree \<Rightarrow> ptr \<Rightarrow> ('k, 'v) Tree option" where
  "insertCase1 t node =
     (case deref t node of None \<Rightarrow> None
      | Some n \<Rightarrow>
        if Parent n = None then store t node (\<lambda>n. n\<lparr>color := black\<rparr>)
        else (case nodeColor t (Parent n) of None \<Rightarrow> None
          | Some pc \<Rightarrow>
            if pc = black then Some t
            else (case uncle t node of None \<Rightarrow> None
              | Some u \<Rightarrow>
                (case nodeColor t u of None \<Rightarrow> None
                 | Some uc \<Rightarrow>
                   if uc = red then
                     (case store t (Parent n) (\<lambda>n. n\<lparr>color := black\<rparr>) of None \<Rightarrow> None
                      | Some t1 \<Rightarrow>
                        (case store t1 u (\<lambda>n. n\<lparr>color := black\<rparr>) of None \<Rightarrow> None
                         | Some t2 \<Rightarrow>
                           (case grandparent t2 node of None \<Rightarrow> None
                            | Some gp \<Rightarrow>
                              (case store t2 gp (\<lambda>n. n\<lparr>color := red\<rparr>) of None \<Rightarrow> None
                               | Some t3 \<Rightarrow>
                                 (case grandparent t3 node of None \<Rightarrow> None
                                  | Some gp' \<Rightarrow> insertCase1 t3 gp')))))
                   else insertCase4 t node))))"

declare insertCase1.simps [code]

definition insertCase3 :: "('k, 'v) Tree \<Rightarrow> ptr \<Rightarrow> ('k, 'v) Tree option" where
  "insertCase3 t node = do {
     u \<leftarrow> uncle t node;
     uc \<leftarrow> nodeColor t u;
     if uc = red then do {
       n \<leftarrow> deref t node;
       t1 \<leftarrow> store t (Parent n) (\<lambda>n. n\<lparr>color := black\<rparr>);
       t2 \<leftarrow> store t1 u (\<lambda>n. n\<lparr>color := black\<rparr>);
       gp \<leftarrow> grandparent t2 node;
       t3 \<leftarrow> store t2 gp (\<lambda>n. n\<lparr>color := red\<rparr>);
       gp' \<leftarrow> grandparent t3 node;
       insertCase1 t3 gp' }
     else insertCase4 t node }"

definition insertCase2 :: "('k, 'v) Tree \<Rightarrow> ptr \<Rightarrow> ('k, 'v) Tree option" where
  "insertCase2 t node = do {
     n \<leftarrow> deref t node;
     pc \<leftarrow> nodeColor t (Parent n);
     if pc = black then Some t else insertCase3 t node }"

text \<open>
  The descent loop of \<open>Put\<close>. It either returns from \<open>Put\<close> at an equal key (\<open>Inl\<close>, the
  tree with the entry overwritten) or leaves the loop with the node just linked below
  \<open>node\<close> (\<open>Inr\<close>: the tree, \<open>insertedNode\<close> and \<open>node\<close>).
\<close>

partial_function (option) Put_loop ::
  "('k, 'v) Tree \<Rightarrow> ptr \<Rightarrow> 'k \<Rightarrow> 'v \<Rightarrow> (('k, 'v) Tree + ('k, 'v) Tree \<times> ptr \<times> ptr) option" where
  "Put_loop t node key val =
     (case deref t node of None \<Rightarrow> None
      | Some n \<Rightarrow>
        let compare = Comparator t key (Key n) in
        if compare = 0 then
          map_option Inl (store t node (\<lambda>n. n\<lparr>Key := key, Value := val\<rparr>))
        else if compare < 0 then
          (if Left n = None then
             (case new_node t \<lparr>Key = key, Value = val, color = red,
                               Left = None, Right = None, Parent = None\<rparr> of
                (t1, a) \<Rightarrow> map_option (\<lambda>t2. Inr (t2, a, node)) (store t1 node (\<lambda>n. n\<lparr>Left := a\<rparr>)))
           else Put_loop t (Left n) key val)
        else
          (if Right n = None then
             (case new_node t \<lparr>Key = key, Value = val, color = red,
                               Left = None, Right = None, Parent = None\<rparr> of
                (t1, a) \<Rightarrow> map_option (\<lambda>t2. Inr (t2, a, node)) (store t1 node (\<lambda>n. n\<lparr>Right := a\<rparr>)))
           else Put_loop t (Right n) key val))"

declare Put_loop.simps [code]

definition Put :: "('k, 'v) Tree \<Rightarrow> 'k \<Rightarrow> 'v \<Rightarrow> ('k, 'v) Tree option" where
  "Put t key val =
     (if Root t = None then
        (case new_node t \<lparr>Key = key, Value = val, color = red,
                          Left = None, Right = None, Parent = None\<rparr> of
           (t1, a) \<Rightarrow> do {
             t2 \<leftarrow> insertCase1 (t1\<lparr>Root := a\<rparr>) a;
             Some (t2\<lparr>size' := size' t2 + 1\<rparr>) })
      else do {
        r \<leftarrow> Put_loop t (Root t) key val;
        case r of
          Inl t1 \<Rightarrow> Some t1
        | Inr (t1, insertedNode, node) \<Rightarrow> do {
            t2 \<leftarrow> store t1 insertedNode (\<lambda>n. n\<lparr>Parent := node\<rparr>);
            t3 \<leftarrow> insertCase1 t2 insertedNode;
            Some (t3\<lparr>size' := size' t3 + 1\<rparr>) } })"

section \<open>Lookup\<close>

partial_function (option) lookup_loop :: "('k, 'v) Tree \<Rightarrow> ptr \<Rightarrow> 'k \<Rightarrow> ptr option" where
  "lookup_loop t node key =
     (if node = None then Some None
      else (case deref t node of None \<Rightarrow> None
        | Some n \<Rightarrow>
          let compare = Comparator t key (Key n) in
          if compare = 0 then Some node
          else if compare < 0 then lookup_loop t (Left n) key
          else lookup_loop t (Right n) key))"

declare lookup_loop.simps [code]

definition lookup :: "('k, 'v) Tree \<Rightarrow> 'k \<Rightarrow> ptr option" where
  "lookup t key = lookup_loop t (Root t) key"

text \<open>\<open>Get\<close> returns the value and the flag \<open>found\<close>; the value returned with
  \<open>found = false\<close> is the zero value of the type, \<open>None\<close> here.\<close>

definition Get :: "('k, 'v) Tree \<Rightarrow> 'k \<Rightarrow> ('v option \<times> bool) option" where
  "Get t key = do {
     node \<leftarrow> lookup t key;
     if node \<noteq> None then do { n \<leftarrow> deref t node; Some (Some (Value n), True) }
     else Some (None, False) }"

section \<open>Removal\<close>

partial_function (option) maximumNode_loop :: "('k, 'v) Tree \<Rightarrow> ptr \<Rightarrow> ptr option" where
  "maximumNode_loop t node =
     (case deref t node of None \<Rightarrow> None
      | Some n \<Rightarrow> if Right n \<noteq> None then maximumNode_loop t (Right n) else Some node)"

declare maximumNode_loop.simps [code]

definition maximumNode :: "('k, 'v) Tree \<Rightarrow> ptr \<Rightarrow> ptr option" where
  "maximumNode t node = (if node = None then Some None else maximumNode_loop t node)"

definition deleteCase6 :: "('k, 'v) Tree \<Rightarrow> ptr \<Rightarrow> ('k, 'v) Tree option" where
  "deleteCase6 t node = do {
     sib \<leftarrow> sibling t node;
     n \<leftarrow> deref t node;
     pc \<leftarrow> nodeColor t (Parent n);
     t1 \<leftarrow> store t sib (\<lambda>n. n\<lparr>color := pc\<rparr>);
     n1 \<leftarrow> deref t1 node;
     t2 \<leftarrow> store t1 (Parent n1) (\<lambda>n. n\<lparr>color := black\<rparr>);
     n2 \<leftarrow> deref t2 node;
     p2 \<leftarrow> deref t2 (Parent n2);
     c1 \<leftarrow> sc_and (Some (node = Left p2))
            (do { s \<leftarrow> deref t2 sib; rc \<leftarrow> nodeColor t2 (Right s); Some (rc = red) });
     if c1 then do {
       s \<leftarrow> deref t2 sib;
       t3 \<leftarrow> store t2 (Right s) (\<lambda>n. n\<lparr>color := black\<rparr>);
       n3 \<leftarrow> deref t3 node;
       rotateLeft t3 (Parent n3) }
     else do {
       s \<leftarrow> deref t2 sib;
       lc \<leftarrow> nodeColor t2 (Left s);
       if lc = red then do {
         t3 \<leftarrow> store t2 (Left s) (\<lambda>n. n\<lparr>color := black\<rparr>);
         n3 \<leftarrow> deref t3 node;
         rotateRight t3 (Parent n3) }
       else Some t2 } }"

definition deleteCase5 :: "('k, 'v) Tree \<Rightarrow> ptr \<Rightarrow> ('k, 'v) Tree option" where
  "deleteCase5 t node = do {
     sib \<leftarrow> sibling t node;
     n \<leftarrow> deref t node;
     p \<leftarrow> deref t (Parent n);
     c1 \<leftarrow> sc_and (sc_and (sc_and (Some (node = Left p))
              (map_option (\<lambda>c. c = black) (nodeColor t sib)))
              (do { s \<leftarrow> deref t sib; map_option (\<lambda>c. c = red) (nodeColor t (Left s)) }))
              (do { s \<leftarrow> deref t sib; map_option (\<lambda>c. c = black) (nodeColor t (Right s)) });
     if c1 then do {
       t1 \<leftarrow> store t sib (\<lambda>n. n\<lparr>color := red\<rparr>);
       s1 \<leftarrow> deref t1 sib;
       t2 \<leftarrow> store t1 (Left s1) (\<lambda>n. n\<lparr>color := black\<rparr>);
       t3 \<leftarrow> rotateRight t2 sib;
       deleteCase6 t3 node }
     else do {
       c2 \<leftarrow> sc_and (sc_and (sc_and (Some (node = Right p))
                (map_option (\<lambda>c. c = black) (nodeColor t sib)))
                (do { s \<leftarrow> deref t sib; map_option (\<lambda>c. c = red) (nodeColor t (Right s)) }))
                (do { s \<leftarrow> deref t sib; map_option (\<lambda>c. c = black) (nodeColor t (Left s)) });
       if c2 then do {
         t1 \<leftarrow> store t sib (\<lambda>n. n\<lparr>color := red\<rparr>);
         s1 \<leftarrow> deref t1 sib;
         t2 \<leftarrow> store t1 (Right s1) (\<lambda>n. n\<lparr>color := black\<rparr>);
         t3 \<leftarrow> rotateLeft t2 sib;
         deleteCase6 t3 node }
       else deleteCase6 t node } }"

definition deleteCase4 :: "('k, 'v) Tree \<Rightarrow> ptr \<Rightarrow> ('k, 'v) Tree option" where
  "deleteCase4 t node = do {
     sib \<leftarrow> sibling t node;
     n \<leftarrow> deref t node;
     c \<leftarrow> sc_and (sc_and (sc_and (map_option (\<lambda>c. c = red) (nodeColor t (Parent n)))
             (map_option (\<lambda>c. c = black) (nodeColor t sib)))
             (do { s \<leftarrow> deref t sib; map_option (\<lambda>c. c = black) (nodeColor t (Left s)) }))
             (do { s \<leftarrow> deref t sib; map_option (\<lambda>c. c = black) (nodeColor t (Right s)) });
     if c then do {
       t1 \<leftarrow> store t sib (\<lambda>n. n\<lparr>color := red\<rparr>);
       n1 \<leftarrow> deref t1 node;
       store t1 (Parent n1) (\<lambda>n. n\<lparr>color := black\<rparr>) }
     else deleteCase5 t node }"

text \<open>
  As for insertion, \<open>deleteCase1\<close>, \<open>deleteCase2\<close> and \<open>deleteCase3\<close> form a cycle
  (case 3 restarts case 1 at the parent); \<open>deleteCase1\<close> is the recursive function, holding
  the bodies of the other two, which are defined after it.
\<close>

partial_function (option) deleteCase1 :: "('k, 'v) Tree \<Rightarrow> ptr \<Rightarrow> ('k, 'v) Tree option" where
  "deleteCase1 t node =
     (case deref t node of None \<Rightarrow> None
      | Some n \<Rightarrow>
        if Parent n = None then Some t
        else (case sibling t node of None \<Rightarrow> None
          | Some sib \<Rightarrow>
            (case nodeColor t sib of None \<Rightarrow> None
             | Some sc \<Rightarrow>
               (case (if sc = red then do {
                        t1 \<leftarrow> store t (Parent n) (\<lambda>n. n\<lparr>color := red\<rparr>);
                        t2 \<leftarrow> store t1 sib (\<lambda>n. n\<lparr>color := black\<rparr>);
                        n2 \<leftarrow> deref t2 node;
                        p2 \<leftarrow> deref t2 (Parent n2);
                        if node = Left p2 then rotateLeft t2 (Parent n2)
                        else rotateRight t2 (Parent n2) }
                      else Some t) of None \<Rightarrow> None
                | Some t3 \<Rightarrow>
                  (case sibling t3 node of None \<Rightarrow> None
                   | Some sib3 \<Rightarrow>
                     (case deref t3 node of None \<Rightarrow> None
                      | Some n3 \<Rightarrow>
                        (case sc_and (sc_and (sc_and
                                 (map_option (\<lambda>c. c = black) (nodeColor t3 (Parent n3)))
                                 (map_option (\<lambda>c. c = black) (nodeColor t3 sib3)))
                                 (do { s \<leftarrow> deref t3 sib3;
                                       map_option (\<lambda>c. c = black) (nodeColor t3 (Left s)) }))
                                 (do { s \<leftarrow> deref t3 sib3;
                                       map_option (\<lambda>c. c = black) (nodeColor t3 (Right s)) }) of
                           None \<Rightarrow> None
                         | Some c \<Rightarrow>
                           if c then
                             (case store t3 sib3 (\<lambda>n. n\<lparr>color := red\<rparr>) of None \<Rightarrow> None
                              | Some t4 \<Rightarrow>
                                (case deref t4 node of None \<Rightarrow> None
                                 | Some n4 \<Rightarrow> deleteCase1 t4 (Parent n4)))
                           else deleteCase4 t3 node)))))))"

declare deleteCase1.simps [code]

definition deleteCase3 :: "('k, 'v) Tree \<Rightarrow> ptr \<Rightarrow> ('k, 'v) Tree option" where
  "deleteCase3 t node = do {
     sib \<leftarrow> sibling t node;
     n \<leftarrow> deref t node;
     c \<leftarrow> sc_and (sc_and (sc_and (map_option (\<lambda>c. c = black) (nodeColor t (Parent n)))
             (map_option (\<lambda>c. c = black) (nodeColor t sib)))
             (do { s \<leftarrow> deref t sib; map_option (\<lambda>c. c = black) (nodeColor t (Left s)) }))
             (do { s \<leftarrow> deref t sib; map_option (\<lambda>c. c = black) (nodeColor t (Right s)) });
     if c then do {
       t1 \<leftarrow> store t sib (\<lambda>n. n\<lparr>color := red\<rparr>);
       n1 \<leftarrow> deref t1 node;
       deleteCase1 t1 (Parent n1) }
     else deleteCase4 t node }"

definition deleteCase2 :: "('k, 'v) Tree \<Rightarrow> ptr \<Rightarrow> ('k, 'v) Tree option" where
  "deleteCase2 t node = do {
     sib \<leftarrow> sibling t node;
     sc \<leftarrow> nodeColor t sib;
     t3 \<leftarrow> (if sc = red then do {
              n \<leftarrow> deref t node;
              t1 \<leftarrow> store t (Parent n) (\<lambda>n. n\<lparr>color := red\<rparr>);
              t2 \<leftarrow> store t1 sib (\<lambda>n. n\<lparr>color := black\<rparr>);
              n2 \<leftarrow> deref t2 node;
              p2 \<leftarrow> deref t2 (Parent n2);
              if node = Left p2 then rotateLeft t2 (Parent n2)
              else rotateRight t2 (Parent n2) }
            else Some t);
     deleteCase3 t3 node }"

definition Remove :: "('k, 'v) Tree \<Rightarrow> 'k \<Rightarrow> ('k, 'v) Tree option" where
  "Remove t key = do {
     found \<leftarrow> lookup t key;
     if found = None then Some t
     else do {
       n \<leftarrow> deref t found;
       (t1, node) \<leftarrow>
         (if Left n \<noteq> None \<and> Right n \<noteq> None then do {
            pred \<leftarrow> maximumNode t (Left n);
            pn \<leftarrow> deref t pred;
            ta \<leftarrow> store t found (\<lambda>n. n\<lparr>Key := Key pn\<rparr>);
            pn' \<leftarrow> deref ta pred;
            tb \<leftarrow> store ta found (\<lambda>n. n\<lparr>Value := Value pn'\<rparr>);
            Some (tb, pred) }
          else Some (t, found));
       n1 \<leftarrow> deref t1 node;
       t5 \<leftarrow>
         (if Left n1 = None \<or> Right n1 = None then do {
            let child = (if Right n1 = None then Left n1 else Right n1);
            t2 \<leftarrow>
              (if color n1 = black then do {
                 cc \<leftarrow> nodeColor t1 child;
                 ta \<leftarrow> store t1 node (\<lambda>n. n\<lparr>color := cc\<rparr>);
                 deleteCase1 ta node }
               else Some t1);
            t3 \<leftarrow> replaceNode t2 node child;
            n3 \<leftarrow> deref t3 node;
            if Parent n3 = None \<and> child \<noteq> None
            then store t3 child (\<lambda>n. n\<lparr>color := black\<rparr>)
            else Some t3 }
          else Some t1);
       Some (t5\<lparr>size' := size' t5 - 1\<rparr>) } }"

section \<open>Queries\<close>

definition Empty :: "('k, 'v) Tree \<Rightarrow> bool" where
  "Empty t = (size' t = 0)"

definition Size :: "('k, 'v) Tree \<Rightarrow> int" where
  "Size t = size' t"

definition Clear :: "('k, 'v) Tree \<Rightarrow> ('k, 'v) Tree" where
  "Clear t = t\<lparr>Root := None, size' := 0\<rparr>"

text \<open>The methods \<open>Left\<close> and \<open>Right\<close> of the tree (the minimum and the maximum node)
  are \<open>Tree_Left\<close> and \<open>Tree_Right\<close>, the names \<open>Left\<close> and \<open>Right\<close> being the fields
  of a node.\<close>

partial_function (option) Tree_Left_loop :: "('k, 'v) Tree \<Rightarrow> ptr \<Rightarrow> ptr \<Rightarrow> ptr option" where
  "Tree_Left_loop t parent current =
     (if current \<noteq> None then
        (case deref t current of None \<Rightarrow> None
         | Some c \<Rightarrow> Tree_Left_loop t current (Left c))
      else Some parent)"

declare Tree_Left_loop.simps [code]

definition Tree_Left :: "('k, 'v) Tree \<Rightarrow> ptr option" where
  "Tree_Left t = Tree_Left_loop t None (Root t)"

partial_function (option) Tree_Right_loop :: "('k, 'v) Tree \<Rightarrow> ptr \<Rightarrow> ptr \<Rightarrow> ptr option" where
  "Tree_Right_loop t parent current =
     (if current \<noteq> None then
        (case deref t current of None \<Rightarrow> None
         | Some c \<Rightarrow> Tree_Right_loop t current (Right c))
      else Some parent)"

declare Tree_Right_loop.simps [code]

definition Tree_Right :: "('k, 'v) Tree \<Rightarrow> ptr option" where
  "Tree_Right t = Tree_Right_loop t None (Root t)"

partial_function (option) Floor_loop ::
  "('k, 'v) Tree \<Rightarrow> 'k \<Rightarrow> ptr \<Rightarrow> ptr \<Rightarrow> bool \<Rightarrow> (ptr \<times> bool) option" where
  "Floor_loop t key node floor found =
     (if node \<noteq> None then
        (case deref t node of None \<Rightarrow> None
         | Some n \<Rightarrow>
           let compare = Comparator t key (Key n) in
           if compare = 0 then Some (node, True)
           else if compare < 0 then Floor_loop t key (Left n) floor found
           else Floor_loop t key (Right n) node True)
      else if found then Some (floor, True) else Some (None, False))"

declare Floor_loop.simps [code]

definition Floor :: "('k, 'v) Tree \<Rightarrow> 'k \<Rightarrow> (ptr \<times> bool) option" where
  "Floor t key = Floor_loop t key (Root t) None False"

partial_function (option) Ceiling_loop ::
  "('k, 'v) Tree \<Rightarrow> 'k \<Rightarrow> ptr \<Rightarrow> ptr \<Rightarrow> bool \<Rightarrow> (ptr \<times> bool) option" where
  "Ceiling_loop t key node ceiling found =
     (if node \<noteq> None then
        (case deref t node of None \<Rightarrow> None
         | Some n \<Rightarrow>
           let compare = Comparator t key (Key n) in
           if compare = 0 then Some (node, True)
           else if compare < 0 then Ceiling_loop t key (Left n) node True
           else Ceiling_loop t key (Right n) ceiling found)
      else if found then Some (ceiling, True) else Some (None, False))"

declare Ceiling_loop.simps [code]

definition Ceiling :: "('k, 'v) Tree \<Rightarrow> 'k \<Rightarrow> (ptr \<times> bool) option" where
  "Ceiling t key = Ceiling_loop t key (Root t) None False"

section \<open>Iterator\<close>

text \<open>The positions \<open>begin, between, end\<close> of the source.\<close>

datatype position = pos_begin | pos_between | pos_end

text \<open>
  The iterator state. Its field \<open>tree\<close> points to the tree it walks; the functions below
  take that tree as an argument. The fields \<open>node\<close> and \<open>position\<close> are \<open>node'\<close> and
  \<open>position'\<close> here.
\<close>

record Iterator =
  node' :: ptr
  position' :: position

definition Tree_Iterator :: "('k, 'v) Tree \<Rightarrow> Iterator" where
  "Tree_Iterator t = \<lparr>node' = None, position' = pos_begin\<rparr>"

definition IteratorAt :: "('k, 'v) Tree \<Rightarrow> ptr \<Rightarrow> Iterator" where
  "IteratorAt t node = \<lparr>node' = node, position' = pos_between\<rparr>"

text \<open>\<open>for iterator.node.Left != nil { iterator.node = iterator.node.Left }\<close>\<close>

partial_function (option) Next_down :: "('k, 'v) Tree \<Rightarrow> ptr \<Rightarrow> ptr option" where
  "Next_down t cur =
     (case deref t cur of None \<Rightarrow> None
      | Some c \<Rightarrow> if Left c \<noteq> None then Next_down t (Left c) else Some cur)"

declare Next_down.simps [code]

text \<open>The walk up through the parents in \<open>Next\<close>: the result is the node at which the
  loop jumps to \<open>between\<close>, or \<open>None\<close> when the loop runs out and control reaches \<open>end\<close>.\<close>

partial_function (option) Next_up :: "('k, 'v) Tree \<Rightarrow> ptr \<Rightarrow> ptr \<Rightarrow> ptr option" where
  "Next_up t node cur =
     (case deref t cur of None \<Rightarrow> None
      | Some c \<Rightarrow>
        if Parent c \<noteq> None then
          (case deref t node of None \<Rightarrow> None
           | Some n \<Rightarrow>
             (case deref t (Parent c) of None \<Rightarrow> None
              | Some p \<Rightarrow>
                if Comparator t (Key n) (Key p) \<le> 0 then Some (Parent c)
                else Next_up t node (Parent c)))
        else Some None)"

declare Next_up.simps [code]

definition Next :: "('k, 'v) Tree \<Rightarrow> Iterator \<Rightarrow> (Iterator \<times> bool) option" where
  "Next t it =
     (if position' it = pos_end then Some (\<lparr>node' = None, position' = pos_end\<rparr>, False)
      else if position' it = pos_begin then do {
        left \<leftarrow> Tree_Left t;
        if left = None then Some (\<lparr>node' = None, position' = pos_end\<rparr>, False)
        else Some (\<lparr>node' = left, position' = pos_between\<rparr>, True) }
      else do {
        n \<leftarrow> deref t (node' it);
        if Right n \<noteq> None then do {
          m \<leftarrow> Next_down t (Right n);
          Some (\<lparr>node' = m, position' = pos_between\<rparr>, True) }
        else if Parent n \<noteq> None then do {
          r \<leftarrow> Next_up t (node' it) (node' it);
          if r \<noteq> None then Some (\<lparr>node' = r, position' = pos_between\<rparr>, True)
          else Some (\<lparr>node' = None, position' = pos_end\<rparr>, False) }
        else Some (\<lparr>node' = None, position' = pos_end\<rparr>, False) })"

partial_function (option) Prev_down :: "('k, 'v) Tree \<Rightarrow> ptr \<Rightarrow> ptr option" where
  "Prev_down t cur =
     (case deref t cur of None \<Rightarrow> None
      | Some c \<Rightarrow> if Right c \<noteq> None then Prev_down t (Right c) else Some cur)"

declare Prev_down.simps [code]

partial_function (option) Prev_up :: "('k, 'v) Tree \<Rightarrow> ptr \<Rightarrow> ptr \<Rightarrow> ptr option" where
  "Prev_up t node cur =
     (case deref t cur of None \<Rightarrow> None
      | Some c \<Rightarrow>
        if Parent c \<noteq> None then
          (case deref t node of None \<Rightarrow> None
           | Some n \<Rightarrow>
             (case deref t (Parent c) of None \<Rightarrow> None
              | Some p \<Rightarrow>
                if Comparator t (Key n) (Key p) \<ge> 0 then Some (Parent c)
                else Prev_up t node (Parent c)))
        else Some None)"

declare Prev_up.simps [code]

definition Prev :: "('k, 'v) Tree \<Rightarrow> Iterator \<Rightarrow> (Iterator \<times> bool) option" where
  "Prev t it =
     (if position' it = pos_begin then Some (\<lparr>node' = None, position' = pos_begin\<rparr>, False)
      else if position' it = pos_end then do {
        right \<leftarrow> Tree_Right t;
        if right = None then Some (\<lparr>node' = None, position' = pos_begin\<rparr>, False)
        else Some (\<lparr>node' = right, position' = pos_between\<rparr>, True) }
      else do {
        n \<leftarrow> deref t (node' it);
        if Left n \<noteq> None then do {
          m \<leftarrow> Prev_down t (Left n);
          Some (\<lparr>node' = m, position' = pos_between\<rparr>, True) }
        else if Parent n \<noteq> None then do {
          r \<leftarrow> Prev_up t (node' it) (node' it);
          if r \<noteq> None then Some (\<lparr>node' = r, position' = pos_between\<rparr>, True)
          else Some (\<lparr>node' = None, position' = pos_begin\<rparr>, False) }
        else Some (\<lparr>node' = None, position' = pos_begin\<rparr>, False) })"

text \<open>The methods \<open>Value\<close> and \<open>Key\<close> of the iterator: they read through
  \<open>iterator.node\<close>, and panic when it is nil.\<close>

definition Iterator_Value :: "('k, 'v) Tree \<Rightarrow> Iterator \<Rightarrow> 'v option" where
  "Iterator_Value t it = map_option Value (deref t (node' it))"

definition Iterator_Key :: "('k, 'v) Tree \<Rightarrow> Iterator \<Rightarrow> 'k option" where
  "Iterator_Key t it = map_option Key (deref t (node' it))"

definition Begin :: "Iterator \<Rightarrow> Iterator" where
  "Begin it = it\<lparr>node' := None, position' := pos_begin\<rparr>"

definition End :: "Iterator \<Rightarrow> Iterator" where
  "End it = it\<lparr>node' := None, position' := pos_end\<rparr>"

definition First :: "('k, 'v) Tree \<Rightarrow> Iterator \<Rightarrow> (Iterator \<times> bool) option" where
  "First t it = Next t (Begin it)"

definition Last :: "('k, 'v) Tree \<Rightarrow> Iterator \<Rightarrow> (Iterator \<times> bool) option" where
  "Last t it = Prev t (End it)"

section \<open>Keys and Values\<close>

text \<open>
  \<open>make([]T, tree.size)\<close> panics on a negative length and fills the slice with the zero
  value of the element type; a slot of the model's slice is \<open>None\<close> while it holds that zero
  value and \<open>Some x\<close> once \<open>x\<close> has been written to it. Writing at an index outside the
  slice panics.
\<close>

partial_function (option) Keys_loop ::
  "('k, 'v) Tree \<Rightarrow> Iterator \<Rightarrow> nat \<Rightarrow> 'k option list \<Rightarrow> 'k option list option" where
  "Keys_loop t it i keys =
     (case Next t it of None \<Rightarrow> None
      | Some (it1, ok) \<Rightarrow>
        if ok then
          (case Iterator_Key t it1 of None \<Rightarrow> None
           | Some k \<Rightarrow>
             if i < length keys then Keys_loop t it1 (i + 1) (keys[i := Some k]) else None)
        else Some keys)"

declare Keys_loop.simps [code]

definition Keys :: "('k, 'v) Tree \<Rightarrow> 'k option list option" where
  "Keys t =
     (if size' t < 0 then None
      else Keys_loop t (Tree_Iterator t) 0 (replicate (nat (size' t)) None))"

partial_function (option) Values_loop ::
  "('k, 'v) Tree \<Rightarrow> Iterator \<Rightarrow> nat \<Rightarrow> 'v option list \<Rightarrow> 'v option list option" where
  "Values_loop t it i vals =
     (case Next t it of None \<Rightarrow> None
      | Some (it1, ok) \<Rightarrow>
        if ok then
          (case Iterator_Value t it1 of None \<Rightarrow> None
           | Some v \<Rightarrow>
             if i < length vals then Values_loop t it1 (i + 1) (vals[i := Some v]) else None)
        else Some vals)"

declare Values_loop.simps [code]

definition Values :: "('k, 'v) Tree \<Rightarrow> 'v option list option" where
  "Values t =
     (if size' t < 0 then None
      else Values_loop t (Tree_Iterator t) 0 (replicate (nat (size' t)) None))"

section \<open>Abstract trees and the heap they describe\<close>

text \<open>
  The graph reachable from \<open>Root\<close> is described by a finite tree whose nodes carry the
  address, key, value and colour of the heap node they stand for.
\<close>

datatype ('k, 'v) rbt = Lf | Nd "('k, 'v) rbt" nat 'k 'v bool "('k, 'v) rbt"

fun ptr_of :: "('k, 'v) rbt \<Rightarrow> ptr" where
  "ptr_of Lf = None"
| "ptr_of (Nd l a k v c r) = Some a"

fun addrs :: "('k, 'v) rbt \<Rightarrow> nat list" where
  "addrs Lf = []"
| "addrs (Nd l a k v c r) = addrs l @ a # addrs r"

fun entries :: "('k, 'v) rbt \<Rightarrow> ('k \<times> 'v) list" where
  "entries Lf = []"
| "entries (Nd l a k v c r) = entries l @ (k, v) # entries r"

definition keys_of :: "('k, 'v) rbt \<Rightarrow> 'k list" where
  "keys_of T = map fst (entries T)"

text \<open>\<open>is_tree t par T\<close>: the store of \<open>t\<close> holds the nodes of \<open>T\<close>, linked as \<open>T\<close>
  says, the root of \<open>T\<close> having the parent pointer \<open>par\<close>.\<close>

fun is_tree :: "('k, 'v) Tree \<Rightarrow> ptr \<Rightarrow> ('k, 'v) rbt \<Rightarrow> bool" where
  "is_tree t par Lf = True"
| "is_tree t par (Nd l a k v c r) =
     (deref t (Some a) = Some \<lparr>Key = k, Value = v, color = c,
                                Left = ptr_of l, Right = ptr_of r, Parent = par\<rparr>
      \<and> is_tree t (Some a) l \<and> is_tree t (Some a) r)"

text \<open>\<open>rep t T\<close>: the tree \<open>t\<close> is the heap representation of \<open>T\<close>.\<close>

definition rep :: "('k, 'v) Tree \<Rightarrow> ('k, 'v) rbt \<Rightarrow> bool" where
  "rep t T = (Root t = ptr_of T \<and> is_tree t None T \<and> distinct (addrs T))"

text \<open>A context is the path from a subtree up to the root: the frames of the ancestors,
  nearest first, each with the sibling subtree hanging off it.\<close>

datatype ('k, 'v) frame =
  FL nat 'k 'v bool "('k, 'v) rbt"
| FR "('k, 'v) rbt" nat 'k 'v bool

fun faddr :: "('k, 'v) frame \<Rightarrow> nat" where
  "faddr (FL a k v c r) = a"
| "faddr (FR l a k v c) = a"

fun fcol :: "('k, 'v) frame \<Rightarrow> bool" where
  "fcol (FL a k v c r) = c"
| "fcol (FR l a k v c) = c"

fun fsib :: "('k, 'v) frame \<Rightarrow> ('k, 'v) rbt" where
  "fsib (FL a k v c r) = r"
| "fsib (FR l a k v c) = l"

fun fill :: "('k, 'v) frame \<Rightarrow> ('k, 'v) rbt \<Rightarrow> ('k, 'v) rbt" where
  "fill (FL a k v c r) s = Nd s a k v c r"
| "fill (FR l a k v c) s = Nd l a k v c s"

fun plug :: "('k, 'v) frame list \<Rightarrow> ('k, 'v) rbt \<Rightarrow> ('k, 'v) rbt" where
  "plug [] s = s"
| "plug (f # ctx) s = plug ctx (fill f s)"

fun cpar :: "('k, 'v) frame list \<Rightarrow> ptr" where
  "cpar [] = None"
| "cpar (f # ctx) = Some (faddr f)"

fun caddrs :: "('k, 'v) frame list \<Rightarrow> nat list" where
  "caddrs [] = []"
| "caddrs (f # ctx) = faddr f # addrs (fsib f) @ caddrs ctx"

text \<open>\<open>is_ctx t ctx p\<close>: the store holds the frames of \<open>ctx\<close> with the pointer \<open>p\<close> in
  the hole, up to \<open>Root\<close>.\<close>

fun is_ctx :: "('k, 'v) Tree \<Rightarrow> ('k, 'v) frame list \<Rightarrow> ptr \<Rightarrow> bool" where
  "is_ctx t [] p = (Root t = p)"
| "is_ctx t (FL a k v c r # ctx) p =
     (deref t (Some a) = Some \<lparr>Key = k, Value = v, color = c,
                                Left = p, Right = ptr_of r, Parent = cpar ctx\<rparr>
      \<and> is_tree t (Some a) r \<and> is_ctx t ctx (Some a))"
| "is_ctx t (FR l a k v c # ctx) p =
     (deref t (Some a) = Some \<lparr>Key = k, Value = v, color = c,
                                Left = ptr_of l, Right = p, Parent = cpar ctx\<rparr>
      \<and> is_tree t (Some a) l \<and> is_ctx t ctx (Some a))"

text \<open>The total update of the node at an address; \<open>store\<close> is this update whenever the
  address is allocated.\<close>

definition upd :: "('k, 'v) Tree \<Rightarrow> nat \<Rightarrow> (('k, 'v) Node \<Rightarrow> ('k, 'v) Node) \<Rightarrow> ('k, 'v) Tree" where
  "upd t a f = t\<lparr>nodes := (nodes t)[a := f (nodes t ! a)]\<rparr>"

definition valid :: "('k, 'v) Tree \<Rightarrow> nat \<Rightarrow> bool" where
  "valid t a = (a < length (nodes t))"

subsection \<open>Store lemmas\<close>

lemma deref_None [simp]: "deref t None = None"
  by (simp add: deref_def)

lemma store_None [simp]: "store t None f = None"
  by (simp add: store_def)

lemma deref_Some_valid: "deref t (Some a) = Some n \<Longrightarrow> valid t a"
  by (simp add: deref_def valid_def split: if_splits)

lemma valid_deref: "valid t a \<Longrightarrow> \<exists>n. deref t (Some a) = Some n"
  by (simp add: deref_def valid_def)

lemma store_upd [simp]: "valid t a \<Longrightarrow> store t (Some a) f = Some (upd t a f)"
  by (simp add: store_def upd_def valid_def)

lemma valid_upd [simp]: "valid (upd t a f) b = valid t b"
  by (simp add: upd_def valid_def)

lemma deref_upd [simp]:
  "deref (upd t a f) (Some b) = (if b = a then map_option f (deref t (Some a)) else deref t (Some b))"
  by (auto simp: upd_def deref_def)

lemma upd_fields [simp]:
  "Root (upd t a f) = Root t" "size' (upd t a f) = size' t"
  "Comparator (upd t a f) = Comparator t"
  by (simp_all add: upd_def)

lemma deref_Root_update [simp]: "deref (t\<lparr>Root := p\<rparr>) q = deref t q"
  by (simp add: deref_def split: option.splits)

lemma deref_size_update [simp]: "deref (t\<lparr>size' := n\<rparr>) q = deref t q"
  by (simp add: deref_def split: option.splits)

lemma valid_Root_update [simp]: "valid (t\<lparr>Root := p\<rparr>) a = valid t a"
  by (simp add: valid_def)

lemma valid_size_update [simp]: "valid (t\<lparr>size' := n\<rparr>) a = valid t a"
  by (simp add: valid_def)

lemma upd_Root_update: "upd (t\<lparr>Root := p\<rparr>) a f = (upd t a f)\<lparr>Root := p\<rparr>"
  by (simp add: upd_def)

subsection \<open>Frame lemmas\<close>

lemma is_tree_valid: "is_tree t par T \<Longrightarrow> a \<in> set (addrs T) \<Longrightarrow> valid t a"
  by (induction T arbitrary: par) (auto dest: deref_Some_valid)

lemma is_tree_upd [simp]: "a \<notin> set (addrs T) \<Longrightarrow> is_tree (upd t a f) par T = is_tree t par T"
  by (induction T arbitrary: par) auto

lemma is_tree_Root_update [simp]: "is_tree (t\<lparr>Root := p\<rparr>) par T = is_tree t par T"
  by (induction T arbitrary: par) auto

lemma is_tree_size_update [simp]: "is_tree (t\<lparr>size' := n\<rparr>) par T = is_tree t par T"
  by (induction T arbitrary: par) auto

lemma is_ctx_upd [simp]: "a \<notin> set (caddrs ctx) \<Longrightarrow> is_ctx (upd t a f) ctx p = is_ctx t ctx p"
  by (induction t ctx p rule: is_ctx.induct) auto

lemma is_ctx_size_update [simp]: "is_ctx (t\<lparr>size' := n\<rparr>) ctx p = is_ctx t ctx p"
  by (induction t ctx p rule: is_ctx.induct) auto

lemma is_ctx_valid: "is_ctx t ctx p \<Longrightarrow> a \<in> set (caddrs ctx) \<Longrightarrow> valid t a"
  by (induction t ctx p rule: is_ctx.induct) (auto dest: deref_Some_valid is_tree_valid)

text \<open>Changing the parent pointer of the root of a subtree.\<close>

lemma is_tree_reparent:
  "is_tree t par (Nd l a k v c r) \<Longrightarrow> a \<notin> set (addrs l) \<Longrightarrow> a \<notin> set (addrs r) \<Longrightarrow>
   is_tree (upd t a (\<lambda>n. n\<lparr>Parent := q\<rparr>)) q (Nd l a k v c r)"
  by simp

subsection \<open>Contexts\<close>

lemma plug_append: "plug (c1 @ c2) s = plug c2 (plug c1 s)"
  by (induction c1 arbitrary: s) auto

lemma ptr_of_plug_nonempty: "ctx \<noteq> [] \<Longrightarrow> ptr_of (plug ctx s) = Some (faddr (last ctx))"
proof (induction ctx arbitrary: s)
  case Nil
  then show ?case by simp
next
  case (Cons f ctx)
  then show ?case by (cases f; cases ctx) auto
qed

lemma addrs_plug: "set (addrs (plug ctx s)) = set (caddrs ctx) \<union> set (addrs s)"
proof (induction ctx arbitrary: s)
  case Nil
  then show ?case by simp
next
  case (Cons f ctx)
  then show ?case by (cases f) auto
qed

lemma distinct_plug:
  "distinct (addrs (plug ctx s)) =
     (distinct (caddrs ctx) \<and> distinct (addrs s) \<and> set (caddrs ctx) \<inter> set (addrs s) = {})"
proof (induction ctx arbitrary: s)
  case Nil
  then show ?case by simp
next
  case (Cons f ctx)
  then show ?case by (cases f) (auto simp: addrs_plug)
qed

lemma length_addrs_plug: "length (addrs (plug ctx s)) = length (caddrs ctx) + length (addrs s)"
proof (induction ctx arbitrary: s)
  case Nil
  then show ?case by simp
next
  case (Cons f ctx)
  then show ?case by (cases f) auto
qed

lemma is_tree_plug:
  "(Root t = ptr_of (plug ctx s) \<and> is_tree t None (plug ctx s)) =
     (is_ctx t ctx (ptr_of s) \<and> is_tree t (cpar ctx) s)"
proof (induction ctx arbitrary: s)
  case Nil
  then show ?case by simp
next
  case (Cons f ctx)
  then show ?case by (cases f; cases ctx) auto
qed

lemma rep_plug:
  "rep t (plug ctx s) =
     (is_ctx t ctx (ptr_of s) \<and> is_tree t (cpar ctx) s \<and>
      distinct (caddrs ctx) \<and> distinct (addrs s) \<and> set (caddrs ctx) \<inter> set (addrs s) = {})"
  unfolding rep_def using is_tree_plug [of t ctx s] distinct_plug [of ctx s] by blast

subsection \<open>Rotations and node replacement on the abstract tree\<close>

lemma distinct_perm: "distinct ys \<Longrightarrow> mset xs = mset ys \<Longrightarrow> distinct xs"
  using mset_eq_imp_distinct_iff by blast


lemma ptr_of_addrs: "ptr_of T = Some a \<Longrightarrow> a \<in> set (addrs T)"
  by (cases T) auto

lemma ptr_of_neq [simp]:
  "a \<notin> set (addrs T) \<Longrightarrow> ptr_of T \<noteq> Some a"
  "a \<notin> set (addrs T) \<Longrightarrow> Some a \<noteq> ptr_of T"
  by (cases T; auto)+

lemma is_ctx_hd_valid: "is_ctx t (f # ctx) p \<Longrightarrow> valid t (faddr f)"
  by (cases f) (auto dest: deref_Some_valid)

lemma is_tree_root_valid: "is_tree t par (Nd l a k v c r) \<Longrightarrow> valid t a"
  by (auto dest: deref_Some_valid)

lemma rotateLeft_rep:
  assumes "is_ctx t ctx (Some a)"
    and "is_tree t (cpar ctx) (Nd l a ka va ca (Nd rl b kb vb cb rr))"
    and "distinct (caddrs ctx @ addrs (Nd l a ka va ca (Nd rl b kb vb cb rr)))"
  shows "\<exists>t'. rotateLeft t (Some a) = Some t' \<and> is_ctx t' ctx (Some b) \<and>
           is_tree t' (cpar ctx) (Nd (Nd l a ka va ca rl) b kb vb cb rr) \<and>
           size' t' = size' t \<and> Comparator t' = Comparator t"
proof -
  have va: "valid t a" "valid t b"
    using assms(2) by (auto dest: deref_Some_valid)
  show ?thesis
  proof (cases ctx)
    case Nil
    show ?thesis
    proof (cases rl)
      case Lf
      with Nil assms va show ?thesis
        by (simp add: rotateLeft_def replaceNode_def upd_Root_update Let_def)
    next
      case (Nd rll c kc vc cc rlr)
      with assms have "valid t c" by (auto dest: deref_Some_valid)
      with Nd Nil assms va show ?thesis
        by (simp add: rotateLeft_def replaceNode_def upd_Root_update Let_def)
    qed
  next
    case (Cons f ctx')
    with assms have vf: "valid t (faddr f)" by (auto dest: is_ctx_hd_valid)
    show ?thesis
    proof (cases rl)
      case Lf
      with Cons assms va vf show ?thesis
        by (cases f) (auto simp add: rotateLeft_def replaceNode_def Let_def)
    next
      case (Nd rll c kc vc cc rlr)
      with assms have "valid t c" by (auto dest: deref_Some_valid)
      with Nd Cons assms va vf show ?thesis
        by (cases f) (auto simp add: rotateLeft_def replaceNode_def Let_def)
    qed
  qed
qed

lemma rotateRight_rep:
  assumes "is_ctx t ctx (Some a)"
    and "is_tree t (cpar ctx) (Nd (Nd ll b kb vb cb lr) a ka va ca r)"
    and "distinct (caddrs ctx @ addrs (Nd (Nd ll b kb vb cb lr) a ka va ca r))"
  shows "\<exists>t'. rotateRight t (Some a) = Some t' \<and> is_ctx t' ctx (Some b) \<and>
           is_tree t' (cpar ctx) (Nd ll b kb vb cb (Nd lr a ka va ca r)) \<and>
           size' t' = size' t \<and> Comparator t' = Comparator t"
proof -
  have va: "valid t a" "valid t b"
    using assms(2) by (auto dest: deref_Some_valid)
  show ?thesis
  proof (cases ctx)
    case Nil
    show ?thesis
    proof (cases lr)
      case Lf
      with Nil assms va show ?thesis
        by (simp add: rotateRight_def replaceNode_def upd_Root_update Let_def)
    next
      case (Nd lrl c kc vc cc lrr)
      with assms have "valid t c" by (auto dest: deref_Some_valid)
      with Nd Nil assms va show ?thesis
        by (simp add: rotateRight_def replaceNode_def upd_Root_update Let_def)
    qed
  next
    case (Cons f ctx')
    with assms have vf: "valid t (faddr f)" by (auto dest: is_ctx_hd_valid)
    show ?thesis
    proof (cases lr)
      case Lf
      with Cons assms va vf show ?thesis
        by (cases f) (auto simp add: rotateRight_def replaceNode_def Let_def)
    next
      case (Nd lrl c kc vc cc lrr)
      with assms have "valid t c" by (auto dest: deref_Some_valid)
      with Nd Cons assms va vf show ?thesis
        by (cases f) (auto simp add: rotateRight_def replaceNode_def Let_def)
    qed
  qed
qed

text \<open>The same two facts as rules for a goal about the state after the rotation.\<close>

lemma rotateLeft_wp:
  assumes "is_ctx t ctx (Some a)"
    and "is_tree t (cpar ctx) (Nd l a ka va ca (Nd rl b kb vb cb rr))"
    and "distinct (caddrs ctx @ addrs (Nd l a ka va ca (Nd rl b kb vb cb rr)))"
    and "\<And>t'. is_ctx t' ctx (Some b) \<Longrightarrow>
           is_tree t' (cpar ctx) (Nd (Nd l a ka va ca rl) b kb vb cb rr) \<Longrightarrow>
           size' t' = size' t \<Longrightarrow> Comparator t' = Comparator t \<Longrightarrow> Q t'"
  shows "\<exists>t'. rotateLeft t (Some a) = Some t' \<and> Q t'"
  using rotateLeft_rep [OF assms(1,2,3)] assms(4) by blast

lemma rotateRight_wp:
  assumes "is_ctx t ctx (Some a)"
    and "is_tree t (cpar ctx) (Nd (Nd ll b kb vb cb lr) a ka va ca r)"
    and "distinct (caddrs ctx @ addrs (Nd (Nd ll b kb vb cb lr) a ka va ca r))"
    and "\<And>t'. is_ctx t' ctx (Some b) \<Longrightarrow>
           is_tree t' (cpar ctx) (Nd ll b kb vb cb (Nd lr a ka va ca r)) \<Longrightarrow>
           size' t' = size' t \<Longrightarrow> Comparator t' = Comparator t \<Longrightarrow> Q t'"
  shows "\<exists>t'. rotateRight t (Some a) = Some t' \<and> Q t'"
  using rotateRight_rep [OF assms(1,2,3)] assms(4) by blast

subsection \<open>The rotations of the insertion fix-up\<close>

text \<open>The subtree that \<open>insertCase5\<close> leaves in place of the grandparent's subtree: \<open>f\<close> is
  the frame of the parent, \<open>g\<close> that of the grandparent and \<open>s\<close> the subtree of the node.\<close>

fun fix5 :: "('k, 'v) frame \<Rightarrow> ('k, 'v) frame \<Rightarrow> ('k, 'v) rbt \<Rightarrow> ('k, 'v) rbt" where
  "fix5 (FL p kp vp cp rp) (FL g kg vg cg rg) s = Nd s p kp vp black (Nd rp g kg vg red rg)"
| "fix5 (FR lp p kp vp cp) (FR lg g kg vg cg) s = Nd (Nd lg g kg vg red lp) p kp vp black s"
| "fix5 (FR lp p kp vp cp) (FL g kg vg cg rg) s = Nd (Nd lp p kp vp black s) g kg vg red rg"
| "fix5 (FL p kp vp cp rp) (FR lg g kg vg cg) s = Nd lg g kg vg red (Nd s p kp vp black rp)"

lemma insertCase5_rep:
  assumes "is_ctx t (f # g # ctx) (Some n)"
    and "is_tree t (Some (faddr f)) s" and "ptr_of s = Some n"
    and "distinct (caddrs (f # g # ctx) @ addrs s)"
  shows "\<exists>t'. insertCase5 t (Some n) = Some t' \<and> is_ctx t' ctx (ptr_of (fix5 f g s)) \<and>
           is_tree t' (cpar ctx) (fix5 f g s) \<and>
           size' t' = size' t \<and> Comparator t' = Comparator t"
proof -
  obtain l k v c r where s: "s = Nd l n k v c r"
    using assms(3) by (cases s) auto
  have vn: "valid t n" "valid t (faddr f)" "valid t (faddr g)"
    using assms s by (auto dest: deref_Some_valid is_ctx_hd_valid simp: is_ctx_valid)
  show ?thesis
  proof (cases f)
    case (FL p kp vp cp rp)
    show ?thesis
    proof (cases g)
      case (FL g' kg vg cg rg)
      let ?t2 = "upd (upd t p (\<lambda>n. n\<lparr>color := black\<rparr>)) g' (\<lambda>n. n\<lparr>color := red\<rparr>)"
      have "\<exists>t'. rotateRight ?t2 (Some g') = Some t' \<and> is_ctx t' ctx (Some p) \<and>
              is_tree t' (cpar ctx) (Nd s p kp vp black (Nd rp g' kg vg red rg)) \<and>
              size' t' = size' ?t2 \<and> Comparator t' = Comparator ?t2"
        by (rule rotateRight_rep; (rule distinct_perm [OF assms(4)])?)
           (use assms s \<open>f = FL p kp vp cp rp\<close> FL in \<open>simp_all add: ac_simps\<close>)
      then show ?thesis
        using assms s vn \<open>f = FL p kp vp cp rp\<close> FL
        by (auto simp add: insertCase5_def grandparent_def)
    next
      case (FR lg g' kg vg cg)
      show ?thesis
        using assms s vn \<open>f = FL p kp vp cp rp\<close> FR
        by (auto simp add: insertCase5_def grandparent_def)
    qed
  next
    case (FR lp p kp vp cp)
    show ?thesis
    proof (cases g)
      case (FL g' kg vg cg rg)
      show ?thesis
        using assms s vn \<open>f = FR lp p kp vp cp\<close> FL
        by (auto simp add: insertCase5_def grandparent_def)
    next
      case (FR lg g' kg vg cg)
      let ?t2 = "upd (upd t p (\<lambda>n. n\<lparr>color := black\<rparr>)) g' (\<lambda>n. n\<lparr>color := red\<rparr>)"
      have "\<exists>t'. rotateLeft ?t2 (Some g') = Some t' \<and> is_ctx t' ctx (Some p) \<and>
              is_tree t' (cpar ctx) (Nd (Nd lg g' kg vg red lp) p kp vp black s) \<and>
              size' t' = size' ?t2 \<and> Comparator t' = Comparator ?t2"
        by (rule rotateLeft_rep; (rule distinct_perm [OF assms(4)])?)
           (use assms s \<open>f = FR lp p kp vp cp\<close> FR in \<open>simp_all add: ac_simps\<close>)
      then show ?thesis
        using assms s vn \<open>f = FR lp p kp vp cp\<close> FR
        by (auto simp add: insertCase5_def grandparent_def)
    qed
  qed
qed

fun fix4 :: "('k, 'v) frame \<Rightarrow> ('k, 'v) frame \<Rightarrow> ('k, 'v) rbt \<Rightarrow> ('k, 'v) rbt" where
  "fix4 (FR lp p kp vp cp) (FL g kg vg cg rg) (Nd l n k v c r) =
     fix5 (FL n k v c r) (FL g kg vg cg rg) (Nd lp p kp vp cp l)"
| "fix4 (FL p kp vp cp rp) (FR lg g kg vg cg) (Nd l n k v c r) =
     fix5 (FR l n k v c) (FR lg g kg vg cg) (Nd r p kp vp cp rp)"
| "fix4 f g s = fix5 f g s"

lemma insertCase4_rep:
  assumes "is_ctx t (f # g # ctx) (Some n)"
    and "is_tree t (Some (faddr f)) s" and "ptr_of s = Some n"
    and "distinct (caddrs (f # g # ctx) @ addrs s)"
  shows "\<exists>t'. insertCase4 t (Some n) = Some t' \<and> is_ctx t' ctx (ptr_of (fix4 f g s)) \<and>
           is_tree t' (cpar ctx) (fix4 f g s) \<and>
           size' t' = size' t \<and> Comparator t' = Comparator t"
proof -
  obtain l k v c r where s: "s = Nd l n k v c r"
    using assms(3) by (cases s) auto
  have vn: "valid t n" "valid t (faddr f)" "valid t (faddr g)"
    using assms s by (auto dest: deref_Some_valid is_ctx_hd_valid simp: is_ctx_valid)
  show ?thesis
  proof (cases f)
    case (FL p kp vp cp rp)
    note f = this
    show ?thesis
    proof (cases g)
      case (FL g' kg vg cg rg)
      have "insertCase4 t (Some n) = insertCase5 t (Some n)"
        using assms s vn f FL by (auto simp add: insertCase4_def grandparent_def sc_and_def)
      then show ?thesis
        using insertCase5_rep [OF assms] f FL s by simp
    next
      case (FR lg g' kg vg cg)
      have "\<exists>t1. rotateRight t (Some p) = Some t1 \<and> is_ctx t1 (g # ctx) (Some n) \<and>
              is_tree t1 (cpar (g # ctx)) (Nd l n k v c (Nd r p kp vp cp rp)) \<and>
              size' t1 = size' t \<and> Comparator t1 = Comparator t"
        by (rule rotateRight_rep; (rule distinct_perm [OF assms(4)])?)
           (use assms s f FR in \<open>simp_all add: ac_simps\<close>)
      then obtain t1 where t1: "rotateRight t (Some p) = Some t1"
        "is_ctx t1 (g # ctx) (Some n)"
        "is_tree t1 (cpar (g # ctx)) (Nd l n k v c (Nd r p kp vp cp rp))"
        "size' t1 = size' t" "Comparator t1 = Comparator t"
        by blast
      have "\<exists>t'. insertCase5 t1 (Some p) = Some t' \<and>
              is_ctx t' ctx (ptr_of (fix5 (FR l n k v c) g (Nd r p kp vp cp rp))) \<and>
              is_tree t' (cpar ctx) (fix5 (FR l n k v c) g (Nd r p kp vp cp rp)) \<and>
              size' t' = size' t1 \<and> Comparator t' = Comparator t1"
        by (rule insertCase5_rep; (rule distinct_perm [OF assms(4)])?)
           (use assms s f FR t1 in \<open>simp_all add: ac_simps\<close>)
      moreover have "insertCase4 t (Some n) = insertCase5 t1 (Some p)"
        using assms s vn f FR t1 by (auto simp add: insertCase4_def grandparent_def sc_and_def)
      ultimately show ?thesis
        using f FR s t1 by simp
    qed
  next
    case (FR lp p kp vp cp)
    note f = this
    show ?thesis
    proof (cases g)
      case (FL g' kg vg cg rg)
      have "\<exists>t1. rotateLeft t (Some p) = Some t1 \<and> is_ctx t1 (g # ctx) (Some n) \<and>
              is_tree t1 (cpar (g # ctx)) (Nd (Nd lp p kp vp cp l) n k v c r) \<and>
              size' t1 = size' t \<and> Comparator t1 = Comparator t"
        by (rule rotateLeft_rep; (rule distinct_perm [OF assms(4)])?)
           (use assms s f FL in \<open>simp_all add: ac_simps\<close>)
      then obtain t1 where t1: "rotateLeft t (Some p) = Some t1"
        "is_ctx t1 (g # ctx) (Some n)"
        "is_tree t1 (cpar (g # ctx)) (Nd (Nd lp p kp vp cp l) n k v c r)"
        "size' t1 = size' t" "Comparator t1 = Comparator t"
        by blast
      have "\<exists>t'. insertCase5 t1 (Some p) = Some t' \<and>
              is_ctx t' ctx (ptr_of (fix5 (FL n k v c r) g (Nd lp p kp vp cp l))) \<and>
              is_tree t' (cpar ctx) (fix5 (FL n k v c r) g (Nd lp p kp vp cp l)) \<and>
              size' t' = size' t1 \<and> Comparator t' = Comparator t1"
        by (rule insertCase5_rep; (rule distinct_perm [OF assms(4)])?)
           (use assms s f FL t1 in \<open>simp_all add: ac_simps\<close>)
      moreover have "insertCase4 t (Some n) = insertCase5 t1 (Some p)"
        using assms s vn f FL t1 by (auto simp add: insertCase4_def grandparent_def sc_and_def)
      ultimately show ?thesis
        using f FL s t1 by simp
    next
      case (FR lg g' kg vg cg)
      have "insertCase4 t (Some n) = insertCase5 t (Some n)"
        using assms s vn f FR by (auto simp add: insertCase4_def grandparent_def sc_and_def)
      then show ?thesis
        using insertCase5_rep [OF assms] f FR s by simp
    qed
  qed
qed

lemma store_upd_deref [simp]: "deref t (Some a) = Some n \<Longrightarrow> store t (Some a) f = Some (upd t a f)"
  by (simp add: deref_Some_valid)

subsection \<open>The three mutually recursive insertion cases\<close>

lemma insertCase2_eq:
  "insertCase2 t node = do {
     n \<leftarrow> deref t node;
     pc \<leftarrow> nodeColor t (Parent n);
     if pc = black then Some t else insertCase3 t node }"
  by (simp add: insertCase2_def)

lemma insertCase1_eq:
  "insertCase1 t node = do {
     n \<leftarrow> deref t node;
     if Parent n = None then store t node (\<lambda>n. n\<lparr>color := black\<rparr>)
     else insertCase2 t node }"
  by (subst insertCase1.simps)
    (auto simp add: insertCase2_def insertCase3_def split: option.splits bind_splits)

subsection \<open>The insertion fix-up on abstract trees\<close>

fun paint :: "bool \<Rightarrow> ('k, 'v) rbt \<Rightarrow> ('k, 'v) rbt" where
  "paint c Lf = Lf"
| "paint c (Nd l a k v c' r) = Nd l a k v c r"

fun fpaint :: "bool \<Rightarrow> ('k, 'v) frame \<Rightarrow> ('k, 'v) frame" where
  "fpaint c (FL a k v c' r) = FL a k v c r"
| "fpaint c (FR l a k v c') = FR l a k v c"

fun fsibpaint :: "bool \<Rightarrow> ('k, 'v) frame \<Rightarrow> ('k, 'v) frame" where
  "fsibpaint c (FL a k v c' r) = FL a k v c' (paint c r)"
| "fsibpaint c (FR l a k v c') = FR (paint c l) a k v c'"

fun col :: "('k, 'v) rbt \<Rightarrow> bool" where
  "col Lf = black"
| "col (Nd l a k v c r) = c"

text \<open>\<open>ins_fix ctx s\<close> is the tree that \<open>insertCase1\<close> leaves when called on the root of
  \<open>s\<close> in the context \<open>ctx\<close>, and \<open>None\<close> where the code dereferences nil.\<close>

fun ins_fix :: "('k, 'v) frame list \<Rightarrow> ('k, 'v) rbt \<Rightarrow> ('k, 'v) rbt option" where
  "ins_fix [] s = Some (paint black s)"
| "ins_fix [f] s = (if fcol f = black then Some (fill f s) else None)"
| "ins_fix (f # g # ctx) s =
     (if fcol f = black then Some (plug (f # g # ctx) s)
      else if col (fsib g) = red then
        ins_fix ctx (fill (fpaint red (fsibpaint black g)) (fill (fpaint black f) s))
      else Some (plug ctx (fix4 f g s)))"

lemma ptr_of_paint [simp]: "ptr_of (paint c s) = ptr_of s"
  by (cases s) auto

lemma addrs_paint [simp]: "addrs (paint c s) = addrs s"
  by (cases s) auto

lemma faddr_fpaint [simp]: "faddr (fpaint c f) = faddr f"
  by (cases f) auto

lemma faddr_fsibpaint [simp]: "faddr (fsibpaint c f) = faddr f"
  by (cases f) auto

lemma ptr_of_fill [simp]: "ptr_of (fill f s) = Some (faddr f)"
  by (cases f) auto

lemma insertCase1_rep:
  assumes "ins_fix ctx s = Some T'"
    and "is_ctx t ctx (Some n)" and "is_tree t (cpar ctx) s" and "ptr_of s = Some n"
    and "distinct (caddrs ctx @ addrs s)"
  shows "\<exists>t'. insertCase1 t (Some n) = Some t' \<and> Root t' = ptr_of T' \<and> is_tree t' None T' \<and>
           size' t' = size' t \<and> Comparator t' = Comparator t"
  using assms
proof (induction ctx s arbitrary: t n T' rule: ins_fix.induct)
  case (1 s)
  then obtain l k v c r where s: "s = Nd l n k v c r" by (cases s) auto
  with 1 show ?case
    by (subst insertCase1.simps) auto
next
  case (2 f s)
  then obtain l k v c r where s: "s = Nd l n k v c r" by (cases s) auto
  with 2 show ?case
    by (subst insertCase1.simps; cases f)
       (auto simp: nodeColor_def split: if_splits)
next
  case (3 f g ctx s)
  note prems = "3.prems"
  from prems obtain l k v c r where s: "s = Nd l n k v c r" by (cases s) auto
  have vn: "valid t n" "valid t (faddr f)" "valid t (faddr g)"
    using "3.prems" s by (auto dest: deref_Some_valid is_ctx_hd_valid simp: is_ctx_valid)
  show ?case
  proof (cases "fcol f = black")
    case True
    have "Root t = ptr_of (plug (f # g # ctx) s) \<and> is_tree t None (plug (f # g # ctx) s)"
      unfolding is_tree_plug using "3.prems" by simp
    with prems s True show ?thesis
      by (subst insertCase1.simps; cases f)
         (auto simp: nodeColor_def split: if_splits)
  next
    case False
    note red = this
    show ?thesis
    proof (cases "col (fsib g) = red")
      case True
      then obtain ul u ku vu ur where u: "fsib g = Nd ul u ku vu red ur"
        by (cases "fsib g") auto
      let ?f = "fpaint black f" and ?g = "fpaint red (fsibpaint black g)"
      let ?t3 = "upd (upd (upd t (faddr f) (\<lambda>n. n\<lparr>color := black\<rparr>)) u (\<lambda>n. n\<lparr>color := black\<rparr>))
                   (faddr g) (\<lambda>n. n\<lparr>color := red\<rparr>)"
      have vu: "valid t u"
        using "3.prems" u by (cases f; cases g) (auto dest: deref_Some_valid)
      have fx: "ins_fix ctx (fill ?g (fill ?f s)) = Some T'"
        using "3.prems" red True by simp
      have step: "insertCase1 t (Some n) = insertCase1 ?t3 (Some (faddr g))"
        using "3.prems" s vn vu u red
        by (subst insertCase1.simps; cases f; cases g)
           (auto simp: nodeColor_def uncle_def sibling_def grandparent_def)
      have "\<exists>t'. insertCase1 ?t3 (Some (faddr g)) = Some t' \<and> Root t' = ptr_of T' \<and>
              is_tree t' None T' \<and> size' t' = size' ?t3 \<and> Comparator t' = Comparator ?t3"
      proof (rule "3.IH" [OF red True fx])
        show "is_ctx ?t3 ctx (Some (faddr g))"
          using "3.prems" s u by (cases f; cases g) auto
        show "is_tree ?t3 (cpar ctx) (fill ?g (fill ?f s))"
          using "3.prems" s u by (cases f; cases g) auto
        show "ptr_of (fill ?g (fill ?f s)) = Some (faddr g)"
          by simp
        have "mset (caddrs ctx @ addrs (fill ?g (fill ?f s))) = mset (caddrs (f # g # ctx) @ addrs s)"
          using u by (cases f; cases g) (simp_all add: ac_simps)
        then show "distinct (caddrs ctx @ addrs (fill ?g (fill ?f s)))"
          using prems(5) mset_eq_imp_distinct_iff by blast
      qed
      with step show ?thesis by simp
    next
      case False
      have T': "T' = plug ctx (fix4 f g s)"
        using "3.prems" red False by simp
      have step: "insertCase1 t (Some n) = insertCase4 t (Some n)"
        using "3.prems" s vn red False
        by (subst insertCase1.simps; cases f; cases g; cases "fsib g")
           (auto simp: nodeColor_def uncle_def sibling_def grandparent_def)
      have "\<exists>t'. insertCase4 t (Some n) = Some t' \<and> is_ctx t' ctx (ptr_of (fix4 f g s)) \<and>
           is_tree t' (cpar ctx) (fix4 f g s) \<and>
           size' t' = size' t \<and> Comparator t' = Comparator t"
        by (rule insertCase4_rep) (use "3.prems" in auto)
      with step T' show ?thesis
        using is_tree_plug [of _ ctx "fix4 f g s"] by auto
    qed
  qed
qed

section \<open>Red-black invariants\<close>

text \<open>The number of black nodes on the leftmost path; \<open>bhi\<close> says that at every node
  both subtrees have the same such number, so that all paths from a node down to a nil
  reference pass through the same number of black nodes.\<close>

fun bh :: "('k, 'v) rbt \<Rightarrow> nat" where
  "bh Lf = 0"
| "bh (Nd l a k v c r) = (if c = black then Suc (bh l) else bh l)"

fun bhi :: "('k, 'v) rbt \<Rightarrow> bool" where
  "bhi Lf = True"
| "bhi (Nd l a k v c r) = (bh l = bh r \<and> bhi l \<and> bhi r)"

text \<open>No red node has a red child.\<close>

fun rr :: "('k, 'v) rbt \<Rightarrow> bool" where
  "rr Lf = True"
| "rr (Nd l a k v c r) = ((c = red \<longrightarrow> col l = black \<and> col r = black) \<and> rr l \<and> rr r)"

definition rbt_inv :: "('k, 'v) rbt \<Rightarrow> bool" where
  "rbt_inv T = (col T = black \<and> rr T \<and> bhi T)"

text \<open>The same invariants for a context: \<open>hole_ok ctx c\<close> says that a subtree with a root
  of colour \<open>c\<close> may stand in the hole.\<close>

fun hole_ok :: "('k, 'v) frame list \<Rightarrow> bool \<Rightarrow> bool" where
  "hole_ok [] c = (c = black)"
| "hole_ok (f # ctx) c = (fcol f = red \<longrightarrow> c = black)"

fun ctx_rr :: "('k, 'v) frame list \<Rightarrow> bool" where
  "ctx_rr [] = True"
| "ctx_rr (f # ctx) =
     (rr (fsib f) \<and> (fcol f = red \<longrightarrow> col (fsib f) = black) \<and> hole_ok ctx (fcol f) \<and> ctx_rr ctx)"

fun ctx_bh :: "nat \<Rightarrow> ('k, 'v) frame list \<Rightarrow> bool" where
  "ctx_bh h [] = True"
| "ctx_bh h (f # ctx) =
     (bh (fsib f) = h \<and> bhi (fsib f) \<and> ctx_bh (if fcol f = black then Suc h else h) ctx)"

fun cpre :: "('k, 'v) frame list \<Rightarrow> ('k \<times> 'v) list" where
  "cpre [] = []"
| "cpre (FL a k v c r # ctx) = cpre ctx"
| "cpre (FR l a k v c # ctx) = cpre ctx @ entries l @ [(k, v)]"

fun cpost :: "('k, 'v) frame list \<Rightarrow> ('k \<times> 'v) list" where
  "cpost [] = []"
| "cpost (FL a k v c r # ctx) = (k, v) # entries r @ cpost ctx"
| "cpost (FR l a k v c # ctx) = cpost ctx"

lemma entries_plug: "entries (plug ctx s) = cpre ctx @ entries s @ cpost ctx"
proof (induction ctx arbitrary: s)
  case Nil
  then show ?case by simp
next
  case (Cons f ctx)
  then show ?case by (cases f) auto
qed

lemma mset_addrs_plug: "mset (addrs (plug ctx s)) = mset (caddrs ctx) + mset (addrs s)"
proof (induction ctx arbitrary: s)
  case Nil
  then show ?case by simp
next
  case (Cons f ctx)
  then show ?case by (cases f) auto
qed

lemma rbt_inv_plug:
  "rbt_inv (plug ctx s) =
     (ctx_rr ctx \<and> ctx_bh (bh s) ctx \<and> rr s \<and> bhi s \<and> hole_ok ctx (col s))"
proof (induction ctx arbitrary: s)
  case Nil
  then show ?case by (auto simp: rbt_inv_def)
next
  case (Cons f ctx)
  show ?case
    unfolding plug.simps Cons.IH by (cases f) auto
qed

lemma col_paint [simp]: "s \<noteq> Lf \<Longrightarrow> col (paint c s) = c"
  by (cases s) auto

lemma entries_paint [simp]: "entries (paint c s) = entries s"
  by (cases s) auto

lemma ins_fix_inv:
  assumes "ctx_rr ctx" and "ctx_bh (bh s) ctx" and "rr s" and "bhi s" and "col s = red"
  shows "\<exists>T'. ins_fix ctx s = Some T' \<and> rbt_inv T' \<and> entries T' = entries (plug ctx s) \<and>
           mset (addrs T') = mset (addrs (plug ctx s))"
  using assms
proof (induction ctx s rule: ins_fix.induct)
  case (1 s)
  then show ?case by (cases s) (auto simp: rbt_inv_def)
next
  case (2 f s)
  then show ?case by (cases f) (auto simp: rbt_inv_def)
next
  case (3 f g ctx s)
  note prems = "3.prems"
  from prems obtain l n k v r where s: "s = Nd l n k v red r" by (cases s) auto
  show ?case
  proof (cases "fcol f = black")
    case True
    with prems show ?thesis
      using rbt_inv_plug [of "f # g # ctx" s] by auto
  next
    case False
    note red = this
    with prems have gb: "fcol g = black" by simp
    show ?thesis
    proof (cases "col (fsib g) = red")
      case True
      then obtain ul u ku vu ur where u: "fsib g = Nd ul u ku vu red ur"
        by (cases "fsib g") auto
      let ?s = "fill (fpaint red (fsibpaint black g)) (fill (fpaint black f) s)"
      have "\<exists>T'. ins_fix ctx ?s = Some T' \<and> rbt_inv T' \<and> entries T' = entries (plug ctx ?s) \<and>
           mset (addrs T') = mset (addrs (plug ctx ?s))"
      proof (rule "3.IH" [OF red True])
        show "ctx_rr ctx" using prems by simp
        show "ctx_bh (bh ?s) ctx" using prems red gb u by (cases f; cases g) auto
        show "rr ?s" using prems red gb u by (cases f; cases g) auto
        show "bhi ?s" using prems red gb u by (cases f; cases g) auto
        show "col ?s = red" by (cases g) auto
      qed
      moreover have "entries (plug ctx ?s) = entries (plug (f # g # ctx) s)"
        using u by (cases f; cases g) (auto simp: entries_plug)
      moreover have "mset (addrs (plug ctx ?s)) = mset (addrs (plug (f # g # ctx) s))"
        using u by (cases f; cases g) (auto simp: mset_addrs_plug)
      ultimately show ?thesis using red True by simp
    next
      case False
      have "rbt_inv (plug ctx (fix4 f g s))"
        unfolding rbt_inv_plug using prems red gb False s
        by (cases f; cases g; cases ctx) auto
      moreover have "entries (plug ctx (fix4 f g s)) = entries (plug (f # g # ctx) s)"
        using s by (cases f; cases g) (auto simp: entries_plug)
      moreover have "mset (addrs (plug ctx (fix4 f g s))) = mset (addrs (plug (f # g # ctx) s))"
        using s by (cases f; cases g) (auto simp: mset_addrs_plug)
      ultimately show ?thesis using red False by simp
    qed
  qed
qed

section \<open>The comparator\<close>

text \<open>
  The tree trusts its comparator to be a three-way comparison for a strict total order of
  the keys: negative for less, zero for equal, positive for greater. \<open>cmp_ok c\<close> says that
  \<open>c\<close> is such a comparison for the linear order of the key type.
\<close>

definition cmp_ok :: "('k::linorder \<Rightarrow> 'k \<Rightarrow> int) \<Rightarrow> bool" where
  "cmp_ok c = (\<forall>a b. (c a b < 0) = (a < b) \<and> (c a b = 0) = (a = b))"

lemma cmp_lt: "cmp_ok c \<Longrightarrow> (c a b < 0) = (a < b)"
  by (simp add: cmp_ok_def)

lemma cmp_eq: "cmp_ok c \<Longrightarrow> (c a b = 0) = (a = b)"
  by (simp add: cmp_ok_def)

lemma cmp_le: "cmp_ok c \<Longrightarrow> (c a b \<le> 0) = (a \<le> b)"
  using cmp_lt [of c a b] cmp_eq [of c a b] by (auto simp: order.order_iff_strict)

lemma cmp_gt: "cmp_ok c \<Longrightarrow> (0 < c a b) = (b < a)"
  using cmp_le [of c a b] by (auto simp: not_le [symmetric])

lemma cmp_ge: "cmp_ok c \<Longrightarrow> (0 \<le> c a b) = (b \<le> a)"
  using cmp_lt [of c a b] by (auto simp: not_less [symmetric])

text \<open>As rewrite rules, for the comparator of a tree.\<close>

lemma cmp_ok_lt [simp]: "cmp_ok (Comparator t) \<Longrightarrow> (Comparator t a b < 0) = (a < b)"
  by (rule cmp_lt)

lemma cmp_ok_eq [simp]: "cmp_ok (Comparator t) \<Longrightarrow> (Comparator t a b = 0) = (a = b)"
  by (rule cmp_eq)

lemma cmp_ok_le [simp]: "cmp_ok (Comparator t) \<Longrightarrow> (Comparator t a b \<le> 0) = (a \<le> b)"
  by (rule cmp_le)

lemma cmp_ok_gt [simp]: "cmp_ok (Comparator t) \<Longrightarrow> (0 < Comparator t a b) = (b < a)"
  by (rule cmp_gt)

lemma cmp_ok_ge [simp]: "cmp_ok (Comparator t) \<Longrightarrow> (0 \<le> Comparator t a b) = (b \<le> a)"
  by (rule cmp_ge)

section \<open>Searching on abstract trees\<close>

text \<open>The node at which the descent for a key stops, and the context of the nil
  reference reached when no node holds the key.\<close>

fun find_addr :: "'k::linorder \<Rightarrow> ('k, 'v) rbt \<Rightarrow> nat option" where
  "find_addr x Lf = None"
| "find_addr x (Nd l a k v c r) =
     (if x = k then Some a else if x < k then find_addr x l else find_addr x r)"

fun set_val :: "'k::linorder \<Rightarrow> 'v \<Rightarrow> ('k, 'v) rbt \<Rightarrow> ('k, 'v) rbt" where
  "set_val x y Lf = Lf"
| "set_val x y (Nd l a k v c r) =
     (if x = k then Nd l a x y c r
      else if x < k then Nd (set_val x y l) a k v c r
      else Nd l a k v c (set_val x y r))"

fun ins_ctx :: "'k::linorder \<Rightarrow> ('k, 'v) rbt \<Rightarrow> ('k, 'v) frame list \<Rightarrow> ('k, 'v) frame list" where
  "ins_ctx x Lf ctx = ctx"
| "ins_ctx x (Nd l a k v c r) ctx =
     (if x < k then ins_ctx x l (FL a k v c r # ctx) else ins_ctx x r (FR l a k v c # ctx))"

subsection \<open>Allocation\<close>

definition alloc :: "('k, 'v) Tree \<Rightarrow> ('k, 'v) Node \<Rightarrow> ('k, 'v) Tree" where
  "alloc t x = t\<lparr>nodes := nodes t @ [x]\<rparr>"

lemma new_node_alloc: "new_node t x = (alloc t x, Some (length (nodes t)))"
  by (simp add: new_node_def alloc_def)

lemma alloc_fields [simp]:
  "Root (alloc t x) = Root t" "size' (alloc t x) = size' t"
  "Comparator (alloc t x) = Comparator t"
  by (simp_all add: alloc_def)

lemma valid_alloc [simp]: "valid (alloc t x) a = (a \<le> length (nodes t))"
  by (auto simp: alloc_def valid_def)

lemma deref_alloc_new [simp]: "deref (alloc t x) (Some (length (nodes t))) = Some x"
  by (simp add: alloc_def deref_def)

lemma deref_alloc_old [simp]: "valid t a \<Longrightarrow> deref (alloc t x) (Some a) = deref t (Some a)"
  by (simp add: alloc_def deref_def valid_def nth_append)

lemma deref_alloc_old' [simp]:
  "deref t (Some a) = Some n \<Longrightarrow> deref (alloc t x) (Some a) = Some n"
  using deref_alloc_old [of t a x] by (simp add: deref_Some_valid)

lemma is_tree_alloc [simp]: "is_tree t par T \<Longrightarrow> is_tree (alloc t x) par T"
  by (induction T arbitrary: par) auto

lemma is_ctx_alloc [simp]: "is_ctx t ctx p \<Longrightarrow> is_ctx (alloc t x) ctx p"
  by (induction t ctx p rule: is_ctx.induct) auto

lemma is_tree_fresh: "is_tree t par T \<Longrightarrow> length (nodes t) \<notin> set (addrs T)"
  using is_tree_valid [of t par T "length (nodes t)"] by (auto simp: valid_def)

lemma is_ctx_fresh: "is_ctx t ctx p \<Longrightarrow> length (nodes t) \<notin> set (caddrs ctx)"
  using is_ctx_valid [of t ctx p "length (nodes t)"] by (auto simp: valid_def)

subsection \<open>The descent of Put\<close>

lemma Put_loop_rep:
  assumes "cmp_ok (Comparator t)"
    and "is_ctx t ctx (Some n)" and "is_tree t (cpar ctx) s" and "ptr_of s = Some n"
    and "distinct (caddrs ctx @ addrs s)"
  shows "case find_addr k s of
           Some a \<Rightarrow> Put_loop t (Some n) k v = Some (Inl (upd t a (\<lambda>n. n\<lparr>Key := k, Value := v\<rparr>)))
         | None \<Rightarrow> (\<exists>t'. Put_loop t (Some n) k v
                        = Some (Inr (t', Some (length (nodes t)), cpar (ins_ctx k s ctx))) \<and>
                      is_ctx t' (ins_ctx k s ctx) (Some (length (nodes t))) \<and>
                      deref t' (Some (length (nodes t))) =
                        Some \<lparr>Key = k, Value = v, color = red, Left = None, Right = None,
                              Parent = None\<rparr> \<and>
                      size' t' = size' t \<and> Comparator t' = Comparator t)"
  using assms
proof (induction s arbitrary: ctx n)
  case Lf
  then show ?case by simp
next
  case (Nd l a k' v' c r)
  note prems = Nd.prems
  have an: "a = n" using prems by simp
  have fresh: "length (nodes t) \<notin> set (caddrs ctx)" "length (nodes t) \<noteq> n"
    using prems is_ctx_fresh [of t ctx "Some n"] is_tree_fresh [of t "cpar ctx" "Nd l a k' v' c r"]
    by auto
  consider (eq) "k = k'" | (lt) "k < k'" | (gt) "k' < k"
    by (meson linorder_less_linear)
  then show ?case
  proof cases
    case eq
    with prems show ?thesis
      by (simp, subst Put_loop.simps, simp add: Let_def)
  next
    case lt
    then have ne: "k \<noteq> k'" by auto
    show ?thesis
    proof (cases l)
      case Lf
      with prems lt ne an fresh show ?thesis
        by (simp, subst Put_loop.simps, simp add: Let_def new_node_alloc)
    next
      case (Nd ll la lk lv lc lr)
      have "case find_addr k l of
           Some a \<Rightarrow> Put_loop t (Some la) k v = Some (Inl (upd t a (\<lambda>n. n\<lparr>Key := k, Value := v\<rparr>)))
         | None \<Rightarrow> (\<exists>t'. Put_loop t (Some la) k v
                        = Some (Inr (t', Some (length (nodes t)), cpar (ins_ctx k l (FL a k' v' c r # ctx)))) \<and>
                      is_ctx t' (ins_ctx k l (FL a k' v' c r # ctx)) (Some (length (nodes t))) \<and>
                      deref t' (Some (length (nodes t))) =
                        Some \<lparr>Key = k, Value = v, color = red, Left = None, Right = None,
                              Parent = None\<rparr> \<and>
                      size' t' = size' t \<and> Comparator t' = Comparator t)"
      proof (rule Nd.IH(1))
        show "cmp_ok (Comparator t)" by fact
        show "is_ctx t (FL a k' v' c r # ctx) (Some la)" using prems Nd by simp
        show "is_tree t (cpar (FL a k' v' c r # ctx)) l" using prems by simp
        show "ptr_of l = Some la" using Nd by simp
        show "distinct (caddrs (FL a k' v' c r # ctx) @ addrs l)"
          by (rule distinct_perm [OF prems(5)]) (simp add: ac_simps)
      qed
      moreover have "Put_loop t (Some n) k v = Put_loop t (Some la) k v"
        using prems lt ne Nd by (subst Put_loop.simps) (simp add: Let_def)
      ultimately show ?thesis using lt ne by (simp split: option.splits)
    qed
  next
    case gt
    then have ne: "k \<noteq> k'" "\<not> k < k'" by auto
    show ?thesis
    proof (cases r)
      case Lf
      with prems gt ne an fresh show ?thesis
        by (simp, subst Put_loop.simps, simp add: Let_def new_node_alloc)
    next
      case (Nd rl ra rk rv rc rr)
      have "case find_addr k r of
           Some a \<Rightarrow> Put_loop t (Some ra) k v = Some (Inl (upd t a (\<lambda>n. n\<lparr>Key := k, Value := v\<rparr>)))
         | None \<Rightarrow> (\<exists>t'. Put_loop t (Some ra) k v
                        = Some (Inr (t', Some (length (nodes t)), cpar (ins_ctx k r (FR l a k' v' c # ctx)))) \<and>
                      is_ctx t' (ins_ctx k r (FR l a k' v' c # ctx)) (Some (length (nodes t))) \<and>
                      deref t' (Some (length (nodes t))) =
                        Some \<lparr>Key = k, Value = v, color = red, Left = None, Right = None,
                              Parent = None\<rparr> \<and>
                      size' t' = size' t \<and> Comparator t' = Comparator t)"
      proof (rule Nd.IH(2))
        show "cmp_ok (Comparator t)" by fact
        show "is_ctx t (FR l a k' v' c # ctx) (Some ra)" using prems Nd by simp
        show "is_tree t (cpar (FR l a k' v' c # ctx)) r" using prems by simp
        show "ptr_of r = Some ra" using Nd by simp
        show "distinct (caddrs (FR l a k' v' c # ctx) @ addrs r)"
          by (rule distinct_perm [OF prems(5)]) (simp add: ac_simps)
      qed
      moreover have "Put_loop t (Some n) k v = Put_loop t (Some ra) k v"
        using prems gt ne Nd by (subst Put_loop.simps) (simp add: Let_def)
      ultimately show ?thesis using gt ne by (simp split: option.splits)
    qed
  qed
qed

section \<open>Search order\<close>

definition sorted_keys :: "('k::linorder, 'v) rbt \<Rightarrow> bool" where
  "sorted_keys T = sorted_wrt (<) (keys_of T)"

lemma keys_of_simps [simp]:
  "keys_of Lf = []"
  "keys_of (Nd l a k v c r) = keys_of l @ k # keys_of r"
  by (simp_all add: keys_of_def)

lemma sorted_keys_Nd:
  "sorted_keys (Nd l a k v c r) =
     (sorted_keys l \<and> sorted_keys r \<and> (\<forall>x\<in>set (keys_of l). x < k) \<and> (\<forall>x\<in>set (keys_of r). k < x))"
  by (auto simp: sorted_keys_def sorted_wrt_append intro: less_trans)

lemma sorted_keys_Lf [simp]: "sorted_keys Lf"
  by (simp add: sorted_keys_def)

lemma find_addr_None: "sorted_keys T \<Longrightarrow> (find_addr x T = None) = (x \<notin> set (keys_of T))"
  by (induction T) (auto simp: sorted_keys_Nd)

lemma find_addr_addrs: "find_addr x T = Some a \<Longrightarrow> a \<in> set (addrs T)"
  by (induction T) (auto split: if_splits)

subsection \<open>Overwriting a value\<close>

lemma ptr_of_set_val [simp]: "ptr_of (set_val x y T) = ptr_of T"
  by (cases T) auto

lemma addrs_set_val [simp]: "addrs (set_val x y T) = addrs T"
  by (induction T) auto

lemma keys_of_set_val [simp]: "keys_of (set_val x y T) = keys_of T"
  by (induction T) auto

lemma col_set_val [simp]: "col (set_val x y T) = col T"
  by (cases T) auto

lemma bh_set_val [simp]: "bh (set_val x y T) = bh T"
  by (induction T) auto

lemma bhi_set_val [simp]: "bhi (set_val x y T) = bhi T"
  by (induction T) auto

lemma rr_set_val [simp]: "rr (set_val x y T) = rr T"
  by (induction T) auto

lemma rbt_inv_set_val [simp]: "rbt_inv (set_val x y T) = rbt_inv T"
  by (simp add: rbt_inv_def)

lemma sorted_keys_set_val [simp]: "sorted_keys (set_val x y T) = sorted_keys T"
  by (simp add: sorted_keys_def)

lemma map_of_entries_Nd:
  "sorted_keys (Nd l a k v c r) \<Longrightarrow>
   map_of (entries (Nd l a k v c r)) x =
     (if x = k then Some v else if x < k then map_of (entries l) x else map_of (entries r) x)"
proof -
  assume s: "sorted_keys (Nd l a k v c r)"
  have l: "x \<notin> set (keys_of l)" if "k \<le> x"
    using s that by (auto simp: sorted_keys_Nd)
  have r: "x \<notin> set (keys_of r)" if "x \<le> k"
    using s that by (auto simp: sorted_keys_Nd)
  show ?thesis
    using l r by (auto simp: map_add_def keys_of_def map_of_eq_None_iff [symmetric]
        simp del: map_of_eq_None_iff split: option.splits)
qed

lemma map_of_set_val:
  "sorted_keys T \<Longrightarrow> find_addr x T \<noteq> None \<Longrightarrow>
   map_of (entries (set_val x y T)) = (map_of (entries T))(x \<mapsto> y)"
proof (induction T)
  case Lf
  then show ?case by simp
next
  case (Nd l a k v c r)
  have sl: "sorted_keys l" and sr: "sorted_keys r"
    using Nd.prems by (auto simp: sorted_keys_Nd)
  have nl: "find_addr x l = None" if "k < x"
    using Nd.prems(1) that find_addr_None [OF sl, of x] by (auto simp: sorted_keys_Nd)
  have nr: "find_addr x r = None" if "x < k"
    using Nd.prems(1) that find_addr_None [OF sr, of x] by (auto simp: sorted_keys_Nd)
  consider (eq) "x = k" | (lt) "x < k" | (gt) "k < x"
    by (meson linorder_less_linear)
  then show ?case
  proof cases
    case eq
    have "sorted_keys (Nd l a x y c r)" using Nd.prems(1) eq by (simp add: sorted_keys_Nd)
    with eq Nd.prems(1) show ?thesis
      by (simp add: map_of_entries_Nd fun_eq_iff del: entries.simps)
  next
    case lt
    then have ne: "x \<noteq> k" by auto
    have fl: "find_addr x l \<noteq> None" using Nd.prems(2) lt ne by simp
    have s1: "sorted_keys (Nd (set_val x y l) a k v c r)"
      using Nd.prems(1) by (simp add: sorted_keys_Nd)
    show ?thesis
      using lt ne Nd.prems(1) s1 Nd.IH(1) [OF sl fl]
      by (simp add: map_of_entries_Nd fun_eq_iff del: entries.simps)
  next
    case gt
    then have ne: "x \<noteq> k" "\<not> x < k" by auto
    have fr: "find_addr x r \<noteq> None" using Nd.prems(2) gt ne by simp
    have s1: "sorted_keys (Nd l a k v c (set_val x y r))"
      using Nd.prems(1) by (simp add: sorted_keys_Nd)
    show ?thesis
      using gt ne Nd.prems(1) s1 Nd.IH(2) [OF sr fr]
      by (simp add: map_of_entries_Nd fun_eq_iff del: entries.simps)
  qed
qed

lemma is_tree_set_val:
  "is_tree t par T \<Longrightarrow> distinct (addrs T) \<Longrightarrow> find_addr x T = Some a \<Longrightarrow>
   is_tree (upd t a (\<lambda>n. n\<lparr>Key := x, Value := y\<rparr>)) par (set_val x y T)"
proof (induction T arbitrary: par)
  case Lf
  then show ?case by simp
next
  case (Nd l b k v c r)
  show ?case
  proof (cases "x = k")
    case True
    with Nd.prems show ?thesis by auto
  next
    case False
    show ?thesis
    proof (cases "x < k")
      case True
      with False Nd.prems have "a \<in> set (addrs l)" by (auto dest: find_addr_addrs)
      moreover from this Nd.prems have "a \<notin> set (addrs r)" "a \<noteq> b" by auto
      ultimately show ?thesis using True False Nd by simp
    next
      case nlt: False
      with False Nd.prems have "a \<in> set (addrs r)" by (auto dest: find_addr_addrs)
      moreover from this Nd.prems have "a \<notin> set (addrs l)" "a \<noteq> b" by auto
      ultimately show ?thesis using nlt False Nd by simp
    qed
  qed
qed

subsection \<open>The place of a new key\<close>

lemma plug_ins_ctx: "find_addr x s = None \<Longrightarrow> plug (ins_ctx x s ctx) Lf = plug ctx s"
  by (induction s arbitrary: ctx) (auto split: if_splits)

lemma sorted_mid_bounds:
  "sorted_wrt (<) (map fst (A @ (L @ (k, v) # R) @ C)) \<Longrightarrow>
   (\<forall>z\<in>set (map fst R). k < z) \<and> (\<forall>z\<in>set (map fst L). z < k)"
  by (auto simp: sorted_wrt_append)

lemma cpar_ins_ctx: "s \<noteq> Lf \<Longrightarrow> cpar (ins_ctx x s ctx) \<noteq> None"
proof (induction s arbitrary: ctx)
  case Lf
  then show ?case by simp
next
  case (Nd l a k v c r)
  then show ?case by (cases l; cases r) auto
qed

lemma sorted_ins_ctx:
  assumes "sorted_wrt (<) (map fst (cpre ctx @ entries s @ cpost ctx))"
    and "\<forall>z\<in>set (map fst (cpre ctx)). z < x" and "\<forall>z\<in>set (map fst (cpost ctx)). x < z"
    and "find_addr x s = None"
  shows "sorted_wrt (<) (map fst (cpre (ins_ctx x s ctx) @ (x, y) # cpost (ins_ctx x s ctx)))"
  using assms
proof (induction s arbitrary: ctx)
  case Lf
  then show ?case by (simp add: sorted_wrt_append)
next
  case (Nd l a k v c r)
  show ?case
  proof (cases "x < k")
    case True
    have "sorted_wrt (<) (map fst (cpre (ins_ctx x l (FL a k v c r # ctx)) @
             (x, y) # cpost (ins_ctx x l (FL a k v c r # ctx))))"
    proof (rule Nd.IH(1))
      show "sorted_wrt (<) (map fst (cpre (FL a k v c r # ctx) @ entries l @ cpost (FL a k v c r # ctx)))"
        using Nd.prems(1) by simp
      show "\<forall>z\<in>set (map fst (cpre (FL a k v c r # ctx))). z < x"
        using Nd.prems(2) by simp
      show "\<forall>z\<in>set (map fst (cpost (FL a k v c r # ctx))). x < z"
        using sorted_mid_bounds [OF Nd.prems(1) [unfolded entries.simps]] Nd.prems(3) True
        by (auto intro: less_trans)
      show "find_addr x l = None" using Nd.prems(4) True by (auto split: if_splits)
    qed
    with True show ?thesis by simp
  next
    case False
    with Nd.prems(4) have gt: "k < x" by (auto split: if_splits)
    have "sorted_wrt (<) (map fst (cpre (ins_ctx x r (FR l a k v c # ctx)) @
             (x, y) # cpost (ins_ctx x r (FR l a k v c # ctx))))"
    proof (rule Nd.IH(2))
      show "sorted_wrt (<) (map fst (cpre (FR l a k v c # ctx) @ entries r @ cpost (FR l a k v c # ctx)))"
        using Nd.prems(1) by simp
      show "\<forall>z\<in>set (map fst (cpre (FR l a k v c # ctx))). z < x"
        using sorted_mid_bounds [OF Nd.prems(1) [unfolded entries.simps]] Nd.prems(2) gt
        by (auto intro: less_trans)
      show "\<forall>z\<in>set (map fst (cpost (FR l a k v c # ctx))). x < z"
        using Nd.prems(3) by simp
      show "find_addr x r = None" using Nd.prems(4) False by (auto split: if_splits)
    qed
    with False show ?thesis by simp
  qed
qed

section \<open>The invariant of the tree\<close>

text \<open>\<open>tree_inv t T\<close>: the heap of \<open>t\<close> represents \<open>T\<close>, the keys of \<open>T\<close> are in search
  order, \<open>T\<close> is coloured as a red-black tree, \<open>size\<close> is its number of nodes, and the
  comparator is a comparison for the order of the keys.\<close>

definition tree_inv :: "('k::linorder, 'v) Tree \<Rightarrow> ('k, 'v) rbt \<Rightarrow> bool" where
  "tree_inv t T =
     (rep t T \<and> sorted_keys T \<and> rbt_inv T \<and> size' t = int (length (addrs T)) \<and>
      cmp_ok (Comparator t))"

lemma rep_fresh: "rep t T \<Longrightarrow> length (nodes t) \<notin> set (addrs T)"
  by (auto simp: rep_def dest: is_tree_fresh)

lemma Put_correct:
  assumes "tree_inv t T"
  shows "\<exists>t' T'. Put t k v = Some t' \<and> tree_inv t' T' \<and>
           (case find_addr k T of
              Some a \<Rightarrow> t' = upd t a (\<lambda>n. n\<lparr>Key := k, Value := v\<rparr>) \<and> T' = set_val k v T
            | None \<Rightarrow> entries T' = cpre (ins_ctx k T []) @ (k, v) # cpost (ins_ctx k T []) \<and>
                entries T = cpre (ins_ctx k T []) @ cpost (ins_ctx k T []) \<and>
                length (addrs T') = Suc (length (addrs T)))"
proof (cases T)
  case Lf
  let ?a = "length (nodes t)"
  let ?s = "Nd Lf ?a k v red Lf :: ('a, 'b) rbt"
  let ?t1 = "(alloc t \<lparr>Key = k, Value = v, color = red, Left = None, Right = None, Parent = None\<rparr>)
               \<lparr>Root := Some ?a\<rparr>"
  have root: "Root t = None" using assms Lf by (simp add: tree_inv_def rep_def)
  have "\<exists>t'. insertCase1 ?t1 (Some ?a) = Some t' \<and> Root t' = ptr_of (paint black ?s) \<and>
          is_tree t' None (paint black ?s) \<and> size' t' = size' ?t1 \<and> Comparator t' = Comparator ?t1"
    by (rule insertCase1_rep [where ctx = "[]" and s = ?s]) simp_all
  then obtain t' where t': "insertCase1 ?t1 (Some ?a) = Some t'" "Root t' = Some ?a"
    "is_tree t' None (Nd Lf ?a k v black Lf)" "size' t' = size' t" "Comparator t' = Comparator t"
    by auto
  have "Put t k v = Some (t'\<lparr>size' := size' t' + 1\<rparr>)"
    using root t' by (simp add: Put_def new_node_alloc)
  moreover have "tree_inv (t'\<lparr>size' := size' t' + 1\<rparr>) (Nd Lf ?a k v black Lf)"
    using assms Lf t' by (simp add: tree_inv_def rep_def rbt_inv_def sorted_keys_def)
  ultimately show ?thesis using Lf
    by (auto intro!: exI [of _ "Nd Lf ?a k v black Lf"])
next
  case (Nd l n k' v' c r)
  have inv: "rep t T" "sorted_keys T" "rbt_inv T" "size' t = int (length (addrs T))"
    "cmp_ok (Comparator t)"
    using assms by (simp_all add: tree_inv_def)
  have root: "Root t = Some n" "is_tree t None T" "distinct (addrs T)"
    using inv(1) Nd by (simp_all add: rep_def)
  have loop: "case find_addr k T of
           Some a \<Rightarrow> Put_loop t (Some n) k v = Some (Inl (upd t a (\<lambda>n. n\<lparr>Key := k, Value := v\<rparr>)))
         | None \<Rightarrow> (\<exists>t'. Put_loop t (Some n) k v
                        = Some (Inr (t', Some (length (nodes t)), cpar (ins_ctx k T []))) \<and>
                      is_ctx t' (ins_ctx k T []) (Some (length (nodes t))) \<and>
                      deref t' (Some (length (nodes t))) =
                        Some \<lparr>Key = k, Value = v, color = red, Left = None, Right = None,
                              Parent = None\<rparr> \<and>
                      size' t' = size' t \<and> Comparator t' = Comparator t)"
    by (rule Put_loop_rep) (use inv root Nd in simp_all)
  show ?thesis
  proof (cases "find_addr k T")
    case (Some a)
    let ?t' = "upd t a (\<lambda>n. n\<lparr>Key := k, Value := v\<rparr>)"
    have "Put t k v = Some ?t'"
      using loop Some root by (simp add: Put_def)
    moreover have "tree_inv ?t' (set_val k v T)"
      using inv root Some is_tree_set_val [of t None T k a v]
      by (simp add: tree_inv_def rep_def)
    ultimately show ?thesis using Some by simp
  next
    case None
    let ?a = "length (nodes t)"
    let ?cf = "ins_ctx k T []"
    let ?s = "Nd Lf ?a k v red Lf :: ('a, 'b) rbt"
    from loop None obtain t1 where t1:
      "Put_loop t (Some n) k v = Some (Inr (t1, Some ?a, cpar ?cf))"
      "is_ctx t1 ?cf (Some ?a)"
      "deref t1 (Some ?a) = Some \<lparr>Key = k, Value = v, color = red, Left = None, Right = None,
                              Parent = None\<rparr>"
      "size' t1 = size' t" "Comparator t1 = Comparator t"
      by auto
    have T: "plug ?cf Lf = T" using None by (simp add: plug_ins_ctx)
    have fresh: "?a \<notin> set (caddrs ?cf)"
      using rep_fresh [OF inv(1)] addrs_plug [of ?cf Lf] T by simp
    have dcf: "distinct (caddrs ?cf)"
      using root(3) distinct_plug [of ?cf Lf] T by simp
    let ?t2 = "upd t1 ?a (\<lambda>n. n\<lparr>Parent := cpar ?cf\<rparr>)"
    have ctx_inv: "ctx_rr ?cf" "ctx_bh 0 ?cf"
      using inv(3) rbt_inv_plug [of ?cf Lf] T by simp_all
    have "\<exists>T'. ins_fix ?cf ?s = Some T' \<and> rbt_inv T' \<and> entries T' = entries (plug ?cf ?s) \<and>
           mset (addrs T') = mset (addrs (plug ?cf ?s))"
      by (rule ins_fix_inv) (use ctx_inv in simp_all)
    then obtain T' where T': "ins_fix ?cf ?s = Some T'" "rbt_inv T'"
      "entries T' = entries (plug ?cf ?s)" "mset (addrs T') = mset (addrs (plug ?cf ?s))"
      by blast
    have "\<exists>t'. insertCase1 ?t2 (Some ?a) = Some t' \<and> Root t' = ptr_of T' \<and> is_tree t' None T' \<and>
           size' t' = size' ?t2 \<and> Comparator t' = Comparator ?t2"
      by (rule insertCase1_rep [OF T'(1)]) (use t1 fresh dcf in simp_all)
    then obtain t3 where t3: "insertCase1 ?t2 (Some ?a) = Some t3" "Root t3 = ptr_of T'"
      "is_tree t3 None T'" "size' t3 = size' t" "Comparator t3 = Comparator t"
      using t1 by auto
    have put: "Put t k v = Some (t3\<lparr>size' := size' t3 + 1\<rparr>)"
      using root t1 t3 by (simp add: Put_def)
    have "distinct (addrs (plug ?cf ?s))"
      unfolding distinct_plug using fresh dcf by simp
    then have d': "distinct (addrs T')"
      using mset_eq_imp_distinct_iff [OF T'(4)] by simp
    have len: "length (addrs T') = Suc (length (addrs T))"
      using mset_eq_length [OF T'(4)] length_addrs_plug [of ?cf ?s] length_addrs_plug [of ?cf Lf] T
      by simp
    have ent: "entries T' = cpre ?cf @ (k, v) # cpost ?cf" "entries T = cpre ?cf @ cpost ?cf"
      using T'(3) T entries_plug [of ?cf ?s] entries_plug [of ?cf Lf] by simp_all
    have "sorted_wrt (<) (map fst (cpre ?cf @ (k, v) # cpost ?cf))"
      by (rule sorted_ins_ctx) (use inv(2) None in \<open>simp_all add: sorted_keys_def keys_of_def\<close>)
    then have sk: "sorted_keys T'"
      using ent by (simp add: sorted_keys_def keys_of_def)
    have "tree_inv (t3\<lparr>size' := size' t3 + 1\<rparr>) T'"
      using t3 T'(2) d' sk len inv by (simp add: tree_inv_def rep_def)
    with put None ent len show ?thesis by auto
  qed
qed

section \<open>Lookup\<close>

lemma lookup_loop_rep:
  "is_tree t par s \<Longrightarrow> cmp_ok (Comparator t) \<Longrightarrow>
   lookup_loop t (ptr_of s) x = Some (find_addr x s)"
proof (induction s arbitrary: par)
  case Lf
  then show ?case by (subst lookup_loop.simps) simp
next
  case (Nd l a k v c r)
  consider (eq) "x = k" | (lt) "x < k" | (gt) "k < x"
    by (meson linorder_less_linear)
  then show ?case
  proof cases
    case eq
    with Nd.prems show ?thesis by (subst lookup_loop.simps) (simp add: Let_def)
  next
    case lt
    then have "x \<noteq> k" by auto
    with lt Nd.prems Nd.IH(1) [of "Some a"] show ?thesis
      by (subst lookup_loop.simps) (simp add: Let_def)
  next
    case gt
    then have "x \<noteq> k" "\<not> x < k" by auto
    with gt Nd.prems Nd.IH(2) [of "Some a"] show ?thesis
      by (subst lookup_loop.simps) (simp add: Let_def)
  qed
qed

lemma lookup_rep: "tree_inv t T \<Longrightarrow> lookup t x = Some (find_addr x T)"
  using lookup_loop_rep [of t None T x] by (simp add: lookup_def tree_inv_def rep_def)

text \<open>The node found for a key holds that key, and the value the tree maps it to.\<close>

lemma find_addr_deref:
  "is_tree t par T \<Longrightarrow> sorted_keys T \<Longrightarrow> find_addr x T = Some a \<Longrightarrow>
   \<exists>n. deref t (Some a) = Some n \<and> Key n = x \<and> map_of (entries T) x = Some (Value n)"
proof (induction T arbitrary: par)
  case Lf
  then show ?case by simp
next
  case (Nd l b k v c r)
  have sl: "sorted_keys l" and sr: "sorted_keys r"
    using Nd.prems by (auto simp: sorted_keys_Nd)
  consider (eq) "x = k" | (lt) "x < k" | (gt) "k < x"
    by (meson linorder_less_linear)
  then show ?case
  proof cases
    case eq
    with Nd.prems show ?thesis by (simp add: map_of_entries_Nd del: entries.simps)
  next
    case lt
    then have ne: "x \<noteq> k" by auto
    have "\<exists>n. deref t (Some a) = Some n \<and> Key n = x \<and> map_of (entries l) x = Some (Value n)"
      by (rule Nd.IH(1) [of "Some b"]) (use Nd.prems lt ne sl in simp_all)
    with lt ne Nd.prems(2) show ?thesis by (simp add: map_of_entries_Nd del: entries.simps)
  next
    case gt
    then have ne: "x \<noteq> k" "\<not> x < k" by auto
    have "\<exists>n. deref t (Some a) = Some n \<and> Key n = x \<and> map_of (entries r) x = Some (Value n)"
      by (rule Nd.IH(2) [of "Some b"]) (use Nd.prems gt ne sr in simp_all)
    with gt ne Nd.prems(2) show ?thesis by (simp add: map_of_entries_Nd del: entries.simps)
  qed
qed

lemma map_of_entries_None:
  "(map_of (entries T) x = None) = (x \<notin> set (keys_of T))"
  by (simp add: map_of_eq_None_iff keys_of_def)

lemma Get_rep:
  assumes "tree_inv t T"
  shows "Get t x = Some (map_of (entries T) x, x \<in> set (keys_of T))"
proof (cases "find_addr x T")
  case None
  with assms show ?thesis
    using find_addr_None [of T x] map_of_entries_None [of T x] lookup_rep [OF assms, of x]
    by (simp add: Get_def tree_inv_def)
next
  case (Some a)
  with assms obtain n where "deref t (Some a) = Some n" "Key n = x"
    "map_of (entries T) x = Some (Value n)"
    using find_addr_deref [of t None T x a] by (auto simp: tree_inv_def rep_def)
  with assms Some show ?thesis
    using find_addr_None [of T x] lookup_rep [OF assms, of x]
    by (simp add: Get_def tree_inv_def)
qed

section \<open>A concrete comparator\<close>

text \<open>Modelled from the spec: \<open>utils.IntComparator\<close>, the comparator that
  \<open>NewWithIntComparator\<close> puts into the tree, is not among the sources. It is the three-way
  comparison of integers that the spec asks of a comparator: negative when the first key
  is less, zero when the keys are equal, positive when the first is greater.\<close>

definition IntComparator :: "int \<Rightarrow> int \<Rightarrow> int" where
  "IntComparator a b = (if a < b then -1 else if a = b then 0 else 1)"

definition NewWithIntComparator :: "(int, 'v) Tree" where
  "NewWithIntComparator = \<lparr>Root = None, size' = 0, Comparator = IntComparator, nodes = []\<rparr>"

lemma cmp_ok_IntComparator: "cmp_ok IntComparator"
  by (simp add: cmp_ok_def IntComparator_def)

lemma tree_inv_empty: "cmp_ok c \<Longrightarrow> tree_inv (NewWith c) Lf"
  by (simp add: tree_inv_def NewWith_def rep_def rbt_inv_def)

lemma tree_inv_NewWithIntComparator: "tree_inv NewWithIntComparator Lf"
  by (simp add: tree_inv_def NewWithIntComparator_def rep_def rbt_inv_def cmp_ok_IntComparator)

section \<open>Put on a key that is present\<close>

lemma find_addr_Some: "sorted_keys T \<Longrightarrow> x \<in> set (keys_of T) \<Longrightarrow> \<exists>a. find_addr x T = Some a"
  using find_addr_None [of T x] by auto

lemma map_of_entries_set_val:
  "sorted_keys T \<Longrightarrow> x \<in> set (keys_of T) \<Longrightarrow>
   map_of (entries (set_val x y T)) = (map_of (entries T))(x \<mapsto> y)"
  using map_of_set_val [of T x y] find_addr_None [of T x] by auto

text \<open>
  C5. When the tree holds the key \<open>k\<close>, \<open>Put t k v\<close> returns the tree in which the node
  holding \<open>k\<close> has the value \<open>v\<close> and nothing else has changed: the store differs at that one
  node only, whose colour and links are kept, and \<open>Root\<close> and \<open>size\<close> are the same. The tree
  has the shape it had (\<open>set_val\<close> changes the value only), and \<open>Get\<close> returns the new value.
  In the concrete run, putting key 2 with the value "x" and then with the value "y" into an
  empty tree leaves the size at 1 after each call, and \<open>Get\<close> then returns "y".
\<close>

theorem Put_present_key_overwrites_in_place:
  "(tree_inv t T \<and> k \<in> set (keys_of T) \<longrightarrow>
      (\<exists>a n t'. a \<in> set (addrs T) \<and> deref t (Some a) = Some n \<and> Key n = k \<and>
         Put t k v = Some t' \<and>
         t' = t\<lparr>nodes := (nodes t)[a := n\<lparr>Value := v\<rparr>]\<rparr> \<and>
         tree_inv t' (set_val k v T) \<and>
         Size t' = Size t \<and>
         Get t' k = Some (Some v, True))) \<and>
   (Put NewWithIntComparator 2 ''x'' \<bind> (\<lambda>t1. Put t1 2 ''y'' \<bind> (\<lambda>t2.
      Some (Size t1, Size t2, Get t2 2)))) = Some (1, 1, Some (Some ''y'', True))"
proof (intro conjI impI)
  assume h: "tree_inv t T \<and> k \<in> set (keys_of T)"
  then have inv: "tree_inv t T" and k: "k \<in> set (keys_of T)" by simp_all
  have sk: "sorted_keys T" and rp: "rep t T" using inv by (simp_all add: tree_inv_def)
  obtain a where a: "find_addr k T = Some a"
    using find_addr_Some [OF sk k] by blast
  obtain n where n: "deref t (Some a) = Some n" "Key n = k"
    using find_addr_deref [of t None T k a] rp sk a by (auto simp: rep_def)
  let ?t' = "upd t a (\<lambda>n. n\<lparr>Key := k, Value := v\<rparr>)"
  from Put_correct [OF inv, of k v] a
  have put: "Put t k v = Some ?t'" and inv': "tree_inv ?t' (set_val k v T)"
    by auto
  have eq: "?t' = t\<lparr>nodes := (nodes t)[a := n\<lparr>Value := v\<rparr>]\<rparr>"
    using n by (auto simp: upd_def deref_def split: if_splits)
  have get: "Get ?t' k = Some (Some v, True)"
    using Get_rep [OF inv', of k] k map_of_entries_set_val [OF sk k, of v] by simp
  show "\<exists>a n t'. a \<in> set (addrs T) \<and> deref t (Some a) = Some n \<and> Key n = k \<and>
         Put t k v = Some t' \<and>
         t' = t\<lparr>nodes := (nodes t)[a := n\<lparr>Value := v\<rparr>]\<rparr> \<and>
         tree_inv t' (set_val k v T) \<and>
         Size t' = Size t \<and>
         Get t' k = Some (Some v, True)"
    using find_addr_addrs [OF a] n put inv' eq get
    by (intro exI [of _ a] exI [of _ n] exI [of _ ?t']) (simp add: Size_def)
next
  show "(Put NewWithIntComparator 2 ''x'' \<bind> (\<lambda>t1. Put t1 2 ''y'' \<bind> (\<lambda>t2.
      Some (Size t1, Size t2, Get t2 2)))) = Some (1, 1, Some (Some ''y'', True))"
    by code_simp
qed

theorem Put_present_key_overwrites_in_place_witness:
  "tree_inv \<lparr>Root = Some 0, size' = 1, Comparator = IntComparator,
             nodes = [\<lparr>Key = 2, Value = ''x'', color = black, Left = None, Right = None,
                       Parent = None\<rparr>]\<rparr>
            (Nd Lf 0 2 ''x'' black Lf) \<and>
   (2::int) \<in> set (keys_of (Nd Lf 0 2 ''x'' black Lf)) \<and>
   Put \<lparr>Root = Some 0, size' = 1, Comparator = IntComparator,
        nodes = [\<lparr>Key = 2, Value = ''x'', color = black, Left = None, Right = None,
                  Parent = None\<rparr>]\<rparr> 2 ''y''
     = Some \<lparr>Root = Some 0, size' = 1, Comparator = IntComparator,
             nodes = [\<lparr>Key = 2, Value = ''y'', color = black, Left = None, Right = None,
                       Parent = None\<rparr>]\<rparr>"
proof -
  let ?t = "\<lparr>Root = Some 0, size' = 1, Comparator = IntComparator,
             nodes = [\<lparr>Key = 2::int, Value = ''x'', color = black, Left = None, Right = None,
                       Parent = None\<rparr>]\<rparr>"
  have h: "tree_inv ?t (Nd Lf 0 2 ''x'' black Lf) \<and> (2::int) \<in> set (keys_of (Nd Lf 0 2 ''x'' black Lf))"
    by (simp add: tree_inv_def rep_def rbt_inv_def sorted_keys_def deref_def cmp_ok_IntComparator)
  from Put_present_key_overwrites_in_place [THEN conjunct1, of ?t "Nd Lf 0 2 ''x'' black Lf" 2 "''y''"] h
  show ?thesis by (auto simp: deref_def)
qed

section \<open>Remove of a key that is absent\<close>

text \<open>
  C4. When no node of the tree holds the key \<open>k\<close>, \<open>Remove t k\<close> returns the tree \<open>t\<close>
  itself: \<open>Root\<close>, \<open>size\<close> and the store, hence the key, value, colour and links of every
  node, are what they were.
\<close>

theorem Remove_absent_key_no_mutation:
  assumes "tree_inv t T" and "k \<notin> set (keys_of T)"
  shows "Remove t k = Some t"
proof -
  have "sorted_keys T" using assms(1) by (simp add: tree_inv_def)
  then have "find_addr k T = None" using assms(2) by (simp add: find_addr_None)
  then show ?thesis
    using lookup_rep [OF assms(1), of k] by (simp add: Remove_def)
qed

theorem Remove_absent_key_no_mutation_witness:
  "tree_inv \<lparr>Root = Some 0, size' = 1, Comparator = IntComparator,
             nodes = [\<lparr>Key = 2, Value = ''x'', color = black, Left = None, Right = None,
                       Parent = None\<rparr>]\<rparr>
            (Nd Lf 0 2 ''x'' black Lf) \<and>
   (3::int) \<notin> set (keys_of (Nd Lf 0 2 ''x'' black Lf)) \<and>
   Remove \<lparr>Root = Some 0, size' = 1, Comparator = IntComparator,
           nodes = [\<lparr>Key = 2, Value = ''x'', color = black, Left = None, Right = None,
                     Parent = None\<rparr>]\<rparr> 3
     = Some \<lparr>Root = Some 0, size' = 1, Comparator = IntComparator,
             nodes = [\<lparr>Key = 2, Value = ''x'', color = black, Left = None, Right = None,
                       Parent = None\<rparr>]\<rparr>"
proof -
  let ?t = "\<lparr>Root = Some 0, size' = 1, Comparator = IntComparator,
             nodes = [\<lparr>Key = 2::int, Value = ''x'', color = black, Left = None, Right = None,
                       Parent = None\<rparr>]\<rparr>"
  have h1: "tree_inv ?t (Nd Lf 0 2 ''x'' black Lf)"
    by (simp add: tree_inv_def rep_def rbt_inv_def sorted_keys_def deref_def cmp_ok_IntComparator)
  have h2: "(3::int) \<notin> set (keys_of (Nd Lf 0 2 ''x'' black Lf))"
    by simp
  from Remove_absent_key_no_mutation [OF h1 h2] h1 h2 show ?thesis by simp
qed

section \<open>Floor and Ceiling\<close>

text \<open>The descent of \<open>Floor\<close> and of \<open>Ceiling\<close> on abstract trees: the candidate kept so
  far is a pair of an address and the key stored there.\<close>

fun floor_of :: "'k::linorder \<Rightarrow> ('k, 'v) rbt \<Rightarrow> (nat \<times> 'k) option \<Rightarrow> (nat \<times> 'k) option" where
  "floor_of x Lf best = best"
| "floor_of x (Nd l a k v c r) best =
     (if x = k then Some (a, k) else if x < k then floor_of x l best
      else floor_of x r (Some (a, k)))"

fun ceiling_of :: "'k::linorder \<Rightarrow> ('k, 'v) rbt \<Rightarrow> (nat \<times> 'k) option \<Rightarrow> (nat \<times> 'k) option" where
  "ceiling_of x Lf best = best"
| "ceiling_of x (Nd l a k v c r) best =
     (if x = k then Some (a, k) else if x < k then ceiling_of x l (Some (a, k))
      else ceiling_of x r best)"

fun node_keys :: "('k, 'v) rbt \<Rightarrow> (nat \<times> 'k) list" where
  "node_keys Lf = []"
| "node_keys (Nd l a k v c r) = node_keys l @ (a, k) # node_keys r"

lemma node_keys_deref:
  "is_tree t par T \<Longrightarrow> (a, k) \<in> set (node_keys T) \<Longrightarrow>
   \<exists>n. deref t (Some a) = Some n \<and> Key n = k"
  by (induction T arbitrary: par) auto

lemma node_keys_addrs: "(a, k) \<in> set (node_keys T) \<Longrightarrow> a \<in> set (addrs T) \<and> k \<in> set (keys_of T)"
  by (induction T) auto

lemma Floor_loop_rep:
  "is_tree t par s \<Longrightarrow> cmp_ok (Comparator t) \<Longrightarrow> found = (best \<noteq> None) \<Longrightarrow>
   fl = map_option fst best \<Longrightarrow>
   Floor_loop t x (ptr_of s) fl found =
     Some (map_option fst (floor_of x s best), floor_of x s best \<noteq> None)"
proof (induction s arbitrary: par best fl found)
  case Lf
  then show ?case by (subst Floor_loop.simps) auto
next
  case (Nd l a k v c r)
  consider (eq) "x = k" | (lt) "x < k" | (gt) "k < x"
    by (meson linorder_less_linear)
  then show ?case
  proof cases
    case eq
    with Nd.prems show ?thesis by (subst Floor_loop.simps) (simp add: Let_def)
  next
    case lt
    then have "x \<noteq> k" by auto
    have "Floor_loop t x (ptr_of (Nd l a k v c r)) fl found = Floor_loop t x (ptr_of l) fl found"
      using lt \<open>x \<noteq> k\<close> Nd.prems(1,2) by (subst Floor_loop.simps) (simp add: Let_def)
    also have "\<dots> = Some (map_option fst (floor_of x l best), floor_of x l best \<noteq> None)"
      by (rule Nd.IH(1) [of "Some a"]) (use Nd.prems in simp_all)
    finally show ?thesis using lt \<open>x \<noteq> k\<close> by simp
  next
    case gt
    then have "x \<noteq> k" "\<not> x < k" by auto
    have "Floor_loop t x (ptr_of (Nd l a k v c r)) fl found = Floor_loop t x (ptr_of r) (Some a) True"
      using gt \<open>x \<noteq> k\<close> \<open>\<not> x < k\<close> Nd.prems(1,2) by (subst Floor_loop.simps) (simp add: Let_def)
    also have "\<dots> = Some (map_option fst (floor_of x r (Some (a, k))), floor_of x r (Some (a, k)) \<noteq> None)"
      by (rule Nd.IH(2) [of "Some a"]) (use Nd.prems in simp_all)
    finally show ?thesis using gt \<open>x \<noteq> k\<close> \<open>\<not> x < k\<close> by simp
  qed
qed

lemma Ceiling_loop_rep:
  "is_tree t par s \<Longrightarrow> cmp_ok (Comparator t) \<Longrightarrow> found = (best \<noteq> None) \<Longrightarrow>
   cl = map_option fst best \<Longrightarrow>
   Ceiling_loop t x (ptr_of s) cl found =
     Some (map_option fst (ceiling_of x s best), ceiling_of x s best \<noteq> None)"
proof (induction s arbitrary: par best cl found)
  case Lf
  then show ?case by (subst Ceiling_loop.simps) auto
next
  case (Nd l a k v c r)
  consider (eq) "x = k" | (lt) "x < k" | (gt) "k < x"
    by (meson linorder_less_linear)
  then show ?case
  proof cases
    case eq
    with Nd.prems show ?thesis by (subst Ceiling_loop.simps) (simp add: Let_def)
  next
    case lt
    then have "x \<noteq> k" by auto
    have "Ceiling_loop t x (ptr_of (Nd l a k v c r)) cl found = Ceiling_loop t x (ptr_of l) (Some a) True"
      using lt \<open>x \<noteq> k\<close> Nd.prems(1,2) by (subst Ceiling_loop.simps) (simp add: Let_def)
    also have "\<dots> = Some (map_option fst (ceiling_of x l (Some (a, k))), ceiling_of x l (Some (a, k)) \<noteq> None)"
      by (rule Nd.IH(1) [of "Some a"]) (use Nd.prems in simp_all)
    finally show ?thesis using lt \<open>x \<noteq> k\<close> by simp
  next
    case gt
    then have "x \<noteq> k" "\<not> x < k" by auto
    have "Ceiling_loop t x (ptr_of (Nd l a k v c r)) cl found = Ceiling_loop t x (ptr_of r) cl found"
      using gt \<open>x \<noteq> k\<close> \<open>\<not> x < k\<close> Nd.prems(1,2) by (subst Ceiling_loop.simps) (simp add: Let_def)
    also have "\<dots> = Some (map_option fst (ceiling_of x r best), ceiling_of x r best \<noteq> None)"
      by (rule Nd.IH(2) [of "Some a"]) (use Nd.prems in simp_all)
    finally show ?thesis using gt \<open>x \<noteq> k\<close> \<open>\<not> x < k\<close> by simp
  qed
qed

lemma floor_of_mem:
  "floor_of x s best = Some b \<Longrightarrow> b \<in> set (node_keys s) \<or> best = Some b"
  by (induction s arbitrary: best) (auto split: if_splits)

lemma ceiling_of_mem:
  "ceiling_of x s best = Some b \<Longrightarrow> b \<in> set (node_keys s) \<or> best = Some b"
  by (induction s arbitrary: best) (auto split: if_splits)

lemma floor_of_correct:
  assumes "sorted_keys s"
    and "\<forall>b. best = Some b \<longrightarrow> snd b \<le> x \<and> (\<forall>k\<in>set (keys_of s). snd b < k)"
  shows "case floor_of x s best of
           None \<Rightarrow> best = None \<and> (\<forall>k\<in>set (keys_of s). x < k)
         | Some b \<Rightarrow> snd b \<le> x \<and> (\<forall>k\<in>set (keys_of s). k \<le> x \<longrightarrow> k \<le> snd b) \<and>
                     (\<forall>b'. best = Some b' \<longrightarrow> snd b' \<le> snd b)"
  using assms
proof (induction s arbitrary: best)
  case Lf
  then show ?case by (auto split: option.splits)
next
  case (Nd l a k v c r)
  have sl: "sorted_keys l" and sr: "sorted_keys r"
    and lk: "\<forall>z\<in>set (keys_of l). z < k" and kr: "\<forall>z\<in>set (keys_of r). k < z"
    using Nd.prems(1) by (auto simp: sorted_keys_Nd)
  consider (eq) "x = k" | (lt) "x < k" | (gt) "k < x"
    by (meson linorder_less_linear)
  then show ?case
  proof cases
    case eq
    with Nd.prems lk kr show ?thesis by (auto simp: less_imp_le)
  next
    case lt
    then have ne: "x \<noteq> k" by auto
    have "case floor_of x l best of
           None \<Rightarrow> best = None \<and> (\<forall>k\<in>set (keys_of l). x < k)
         | Some b \<Rightarrow> snd b \<le> x \<and> (\<forall>k\<in>set (keys_of l). k \<le> x \<longrightarrow> k \<le> snd b) \<and>
                     (\<forall>b'. best = Some b' \<longrightarrow> snd b' \<le> snd b)"
      by (rule Nd.IH(1) [OF sl]) (use Nd.prems(2) in auto)
    moreover have "\<forall>z\<in>set (keys_of r). x < z"
      using lt kr less_trans by blast
    ultimately show ?thesis using lt ne
      by (auto split: option.splits)
  next
    case gt
    then have ne: "x \<noteq> k" "\<not> x < k" by auto
    have "case floor_of x r (Some (a, k)) of
           None \<Rightarrow> Some (a, k) = None \<and> (\<forall>k\<in>set (keys_of r). x < k)
         | Some b \<Rightarrow> snd b \<le> x \<and> (\<forall>k\<in>set (keys_of r). k \<le> x \<longrightarrow> k \<le> snd b) \<and>
                     (\<forall>b'. Some (a, k) = Some b' \<longrightarrow> snd b' \<le> snd b)"
      by (rule Nd.IH(2) [OF sr]) (use gt kr in auto)
    with gt ne lk Nd.prems(2) show ?thesis
      by (auto split: option.splits)
  qed
qed

lemma ceiling_of_correct:
  assumes "sorted_keys s"
    and "\<forall>b. best = Some b \<longrightarrow> x \<le> snd b \<and> (\<forall>k\<in>set (keys_of s). k < snd b)"
  shows "case ceiling_of x s best of
           None \<Rightarrow> best = None \<and> (\<forall>k\<in>set (keys_of s). k < x)
         | Some b \<Rightarrow> x \<le> snd b \<and> (\<forall>k\<in>set (keys_of s). x \<le> k \<longrightarrow> snd b \<le> k) \<and>
                     (\<forall>b'. best = Some b' \<longrightarrow> snd b \<le> snd b')"
  using assms
proof (induction s arbitrary: best)
  case Lf
  then show ?case by (auto split: option.splits)
next
  case (Nd l a k v c r)
  have sl: "sorted_keys l" and sr: "sorted_keys r"
    and lk: "\<forall>z\<in>set (keys_of l). z < k" and kr: "\<forall>z\<in>set (keys_of r). k < z"
    using Nd.prems(1) by (auto simp: sorted_keys_Nd)
  consider (eq) "x = k" | (lt) "x < k" | (gt) "k < x"
    by (meson linorder_less_linear)
  then show ?case
  proof cases
    case eq
    with Nd.prems lk kr show ?thesis by (auto simp: less_imp_le)
  next
    case lt
    then have ne: "x \<noteq> k" by auto
    have "case ceiling_of x l (Some (a, k)) of
           None \<Rightarrow> Some (a, k) = None \<and> (\<forall>k\<in>set (keys_of l). k < x)
         | Some b \<Rightarrow> x \<le> snd b \<and> (\<forall>k\<in>set (keys_of l). x \<le> k \<longrightarrow> snd b \<le> k) \<and>
                     (\<forall>b'. Some (a, k) = Some b' \<longrightarrow> snd b \<le> snd b')"
      by (rule Nd.IH(1) [OF sl]) (use lt lk in auto)
    with lt ne kr Nd.prems(2) show ?thesis
      by (auto split: option.splits)
  next
    case gt
    then have ne: "x \<noteq> k" "\<not> x < k" by auto
    have "case ceiling_of x r best of
           None \<Rightarrow> best = None \<and> (\<forall>k\<in>set (keys_of r). k < x)
         | Some b \<Rightarrow> x \<le> snd b \<and> (\<forall>k\<in>set (keys_of r). x \<le> k \<longrightarrow> snd b \<le> k) \<and>
                     (\<forall>b'. best = Some b' \<longrightarrow> snd b \<le> snd b')"
      by (rule Nd.IH(2) [OF sr]) (use Nd.prems(2) in auto)
    moreover have "\<forall>z\<in>set (keys_of l). z < x"
      using gt lk less_trans by blast
    ultimately show ?thesis using gt ne
      by (auto split: option.splits)
  qed
qed

lemma Floor_rep:
  assumes "tree_inv t T"
  shows "\<exists>p found. Floor t x = Some (p, found) \<and>
           found = (\<exists>k\<in>set (keys_of T). k \<le> x) \<and>
           (if found
            then \<exists>a n. p = Some a \<and> a \<in> set (addrs T) \<and> deref t p = Some n \<and>
                   Key n \<in> set (keys_of T) \<and> Key n \<le> x \<and>
                   (\<forall>k\<in>set (keys_of T). k \<le> x \<longrightarrow> k \<le> Key n)
            else p = None)"
proof -
  have it: "is_tree t None T" "Root t = ptr_of T" "sorted_keys T" "cmp_ok (Comparator t)"
    using assms by (simp_all add: tree_inv_def rep_def)
  have fl: "Floor t x = Some (map_option fst (floor_of x T None), floor_of x T None \<noteq> None)"
    using Floor_loop_rep [OF it(1) it(4), of False None None x] it(2) by (simp add: Floor_def)
  note c = floor_of_correct [OF it(3), of None x]
  show ?thesis
  proof (cases "floor_of x T None")
    case None
    with c fl show ?thesis by (auto simp: not_le)
  next
    case (Some b)
    obtain a k where b: "b = (a, k)" by (cases b)
    have mem: "(a, k) \<in> set (node_keys T)"
      using floor_of_mem [OF Some] b by simp
    obtain n where n: "deref t (Some a) = Some n" "Key n = k"
      using node_keys_deref [OF it(1) mem] by blast
    from Some c b have "k \<le> x" "\<forall>k'\<in>set (keys_of T). k' \<le> x \<longrightarrow> k' \<le> k" by auto
    moreover have "a \<in> set (addrs T)" "k \<in> set (keys_of T)"
      using node_keys_addrs [OF mem] by simp_all
    ultimately show ?thesis
      using fl Some b n by auto
  qed
qed

lemma Ceiling_rep:
  assumes "tree_inv t T"
  shows "\<exists>p found. Ceiling t x = Some (p, found) \<and>
           found = (\<exists>k\<in>set (keys_of T). x \<le> k) \<and>
           (if found
            then \<exists>a n. p = Some a \<and> a \<in> set (addrs T) \<and> deref t p = Some n \<and>
                   Key n \<in> set (keys_of T) \<and> x \<le> Key n \<and>
                   (\<forall>k\<in>set (keys_of T). x \<le> k \<longrightarrow> Key n \<le> k)
            else p = None)"
proof -
  have it: "is_tree t None T" "Root t = ptr_of T" "sorted_keys T" "cmp_ok (Comparator t)"
    using assms by (simp_all add: tree_inv_def rep_def)
  have fl: "Ceiling t x = Some (map_option fst (ceiling_of x T None), ceiling_of x T None \<noteq> None)"
    using Ceiling_loop_rep [OF it(1) it(4), of False None None x] it(2) by (simp add: Ceiling_def)
  note c = ceiling_of_correct [OF it(3), of None x]
  show ?thesis
  proof (cases "ceiling_of x T None")
    case None
    with c fl show ?thesis by (auto simp: not_le)
  next
    case (Some b)
    obtain a k where b: "b = (a, k)" by (cases b)
    have mem: "(a, k) \<in> set (node_keys T)"
      using ceiling_of_mem [OF Some] b by simp
    obtain n where n: "deref t (Some a) = Some n" "Key n = k"
      using node_keys_deref [OF it(1) mem] by blast
    from Some c b have "x \<le> k" "\<forall>k'\<in>set (keys_of T). x \<le> k' \<longrightarrow> k \<le> k'" by auto
    moreover have "a \<in> set (addrs T)" "k \<in> set (keys_of T)"
      using node_keys_addrs [OF mem] by simp_all
    ultimately show ?thesis
      using fl Some b n by auto
  qed
qed

text \<open>
  C6. \<open>Floor t x\<close> returns \<open>found = true\<close> exactly when some key of the tree is less than or
  equal to \<open>x\<close>, and then the node it returns is a node of the tree holding the largest such
  key; otherwise it returns nil. \<open>Ceiling t x\<close> is the same with the smallest key greater
  than or equal to \<open>x\<close>. In the concrete run, after the keys 10, 20, 5 and 15 have been put
  into an empty tree, \<open>Floor\<close> of 12 is the node with key 10 and \<open>Ceiling\<close> of 12 the node
  with key 15.
\<close>

theorem Floor_Ceiling_correct:
  "(tree_inv t T \<longrightarrow>
      (\<exists>p found. Floor t x = Some (p, found) \<and>
           found = (\<exists>k\<in>set (keys_of T). k \<le> x) \<and>
           (if found
            then \<exists>a n. p = Some a \<and> a \<in> set (addrs T) \<and> deref t p = Some n \<and>
                   Key n \<in> set (keys_of T) \<and> Key n \<le> x \<and>
                   (\<forall>k\<in>set (keys_of T). k \<le> x \<longrightarrow> k \<le> Key n)
            else p = None)) \<and>
      (\<exists>p found. Ceiling t x = Some (p, found) \<and>
           found = (\<exists>k\<in>set (keys_of T). x \<le> k) \<and>
           (if found
            then \<exists>a n. p = Some a \<and> a \<in> set (addrs T) \<and> deref t p = Some n \<and>
                   Key n \<in> set (keys_of T) \<and> x \<le> Key n \<and>
                   (\<forall>k\<in>set (keys_of T). x \<le> k \<longrightarrow> Key n \<le> k)
            else p = None))) \<and>
   (Put NewWithIntComparator 10 ''a'' \<bind> (\<lambda>t. Put t 20 ''b'') \<bind> (\<lambda>t. Put t 5 ''c'') \<bind>
      (\<lambda>t. Put t 15 ''d'') \<bind>
      (\<lambda>t. Floor t 12 \<bind> (\<lambda>(f, ffound). Ceiling t 12 \<bind> (\<lambda>(c, cfound).
         Some (ffound, map_option Key (deref t f), cfound, map_option Key (deref t c))))))
     = Some (True, Some 10, True, Some 15)"
proof (intro conjI impI)
  assume "tree_inv t T"
  then show "\<exists>p found. Floor t x = Some (p, found) \<and>
           found = (\<exists>k\<in>set (keys_of T). k \<le> x) \<and>
           (if found
            then \<exists>a n. p = Some a \<and> a \<in> set (addrs T) \<and> deref t p = Some n \<and>
                   Key n \<in> set (keys_of T) \<and> Key n \<le> x \<and>
                   (\<forall>k\<in>set (keys_of T). k \<le> x \<longrightarrow> k \<le> Key n)
            else p = None)"
    by (rule Floor_rep)
next
  assume "tree_inv t T"
  then show "\<exists>p found. Ceiling t x = Some (p, found) \<and>
           found = (\<exists>k\<in>set (keys_of T). x \<le> k) \<and>
           (if found
            then \<exists>a n. p = Some a \<and> a \<in> set (addrs T) \<and> deref t p = Some n \<and>
                   Key n \<in> set (keys_of T) \<and> x \<le> Key n \<and>
                   (\<forall>k\<in>set (keys_of T). x \<le> k \<longrightarrow> Key n \<le> k)
            else p = None)"
    by (rule Ceiling_rep)
next
  show "(Put NewWithIntComparator 10 ''a'' \<bind> (\<lambda>t. Put t 20 ''b'') \<bind> (\<lambda>t. Put t 5 ''c'') \<bind>
      (\<lambda>t. Put t 15 ''d'') \<bind>
      (\<lambda>t. Floor t 12 \<bind> (\<lambda>(f, ffound). Ceiling t 12 \<bind> (\<lambda>(c, cfound).
         Some (ffound, map_option Key (deref t f), cfound, map_option Key (deref t c))))))
     = Some (True, Some 10, True, Some 15)"
    by code_simp
qed

theorem Floor_Ceiling_correct_witness:
  "tree_inv \<lparr>Root = Some 0, size' = 1, Comparator = IntComparator,
             nodes = [\<lparr>Key = 2, Value = ''x'', color = black, Left = None, Right = None,
                       Parent = None\<rparr>]\<rparr>
            (Nd Lf 0 2 ''x'' black Lf) \<and>
   Floor \<lparr>Root = Some 0, size' = 1, Comparator = IntComparator,
          nodes = [\<lparr>Key = 2, Value = ''x'', color = black, Left = None, Right = None,
                    Parent = None\<rparr>]\<rparr> 3 = Some (Some 0, True) \<and>
   Ceiling \<lparr>Root = Some 0, size' = 1, Comparator = IntComparator,
            nodes = [\<lparr>Key = 2, Value = ''x'', color = black, Left = None, Right = None,
                      Parent = None\<rparr>]\<rparr> 3 = Some (None, False)"
proof -
  let ?t = "\<lparr>Root = Some 0, size' = 1, Comparator = IntComparator,
             nodes = [\<lparr>Key = 2::int, Value = ''x'', color = black, Left = None, Right = None,
                       Parent = None\<rparr>]\<rparr>"
  have h: "tree_inv ?t (Nd Lf 0 2 ''x'' black Lf)"
    by (simp add: tree_inv_def rep_def rbt_inv_def sorted_keys_def deref_def cmp_ok_IntComparator)
  from Floor_Ceiling_correct [THEN conjunct1, of ?t "Nd Lf 0 2 ''x'' black Lf" 3] h
  show ?thesis by (auto split: if_splits)
qed

section \<open>The iterator on abstract trees\<close>

text \<open>The addresses that come before and after the hole of a context in the in-order
  sequence of the whole tree.\<close>

fun apre :: "('k, 'v) frame list \<Rightarrow> nat list" where
  "apre [] = []"
| "apre (FL a k v c r # ctx) = apre ctx"
| "apre (FR l a k v c # ctx) = apre ctx @ addrs l @ [a]"

fun apost :: "('k, 'v) frame list \<Rightarrow> nat list" where
  "apost [] = []"
| "apost (FL a k v c r # ctx) = a # addrs r @ apost ctx"
| "apost (FR l a k v c # ctx) = apost ctx"

lemma addrs_plug_list: "addrs (plug ctx s) = apre ctx @ addrs s @ apost ctx"
proof (induction ctx arbitrary: s)
  case Nil
  then show ?case by simp
next
  case (Cons f ctx)
  then show ?case by (cases f) auto
qed

lemma addr_focus:
  "a \<in> set (addrs T) \<Longrightarrow> \<exists>ctx l k v c r. T = plug ctx (Nd l a k v c r)"
proof (induction T)
  case Lf
  then show ?case by simp
next
  case (Nd l b k v c r)
  consider (here) "a = b" | (left) "a \<in> set (addrs l)" | (right) "a \<in> set (addrs r)"
    using Nd.prems by auto
  then show ?case
  proof cases
    case here
    then have "Nd l b k v c r = plug [] (Nd l a k v c r)" by simp
    then show ?thesis by blast
  next
    case left
    then obtain ctx l' k' v' c' r' where "l = plug ctx (Nd l' a k' v' c' r')"
      using Nd.IH(1) by blast
    then have "Nd l b k v c r = plug (ctx @ [FL b k v c r]) (Nd l' a k' v' c' r')"
      by (simp add: plug_append)
    then show ?thesis by blast
  next
    case right
    then obtain ctx l' k' v' c' r' where "r = plug ctx (Nd l' a k' v' c' r')"
      using Nd.IH(2) by blast
    then have "Nd l b k v c r = plug (ctx @ [FR l b k v c]) (Nd l' a k' v' c' r')"
      by (simp add: plug_append)
    then show ?thesis by blast
  qed
qed

text \<open>The key of a frame, and the search path condition: the key \<open>x\<close> lies in the hole.\<close>

fun fkey :: "('k, 'v) frame \<Rightarrow> 'k" where
  "fkey (FL a k v c r) = k"
| "fkey (FR l a k v c) = k"

fun path_ok :: "'k::linorder \<Rightarrow> ('k, 'v) frame list \<Rightarrow> bool" where
  "path_ok x [] = True"
| "path_ok x (FL a k v c r # ctx) = (x < k \<and> path_ok x ctx)"
| "path_ok x (FR l a k v c # ctx) = (k < x \<and> path_ok x ctx)"

lemma keys_of_plug: "keys_of (plug ctx s) = map fst (cpre ctx) @ keys_of s @ map fst (cpost ctx)"
  by (simp add: keys_of_def entries_plug)

lemma path_ok_sorted:
  "sorted_keys (plug ctx s) \<Longrightarrow> x \<in> set (keys_of s) \<Longrightarrow> path_ok x ctx"
proof (induction ctx arbitrary: s)
  case Nil
  then show ?case by simp
next
  case (Cons f ctx)
  show ?case
  proof (cases f)
    case (FL a k v c r)
    have s: "sorted_keys (plug ctx (Nd s a k v c r))" using Cons.prems(1) FL by simp
    then have "sorted_keys (Nd s a k v c r)"
      by (auto simp: sorted_keys_def keys_of_plug sorted_wrt_append simp del: keys_of_simps)
    then have "x < k" using Cons.prems(2) by (auto simp: sorted_keys_Nd)
    moreover have "path_ok x ctx"
      by (rule Cons.IH [OF s]) (use Cons.prems(2) in simp)
    ultimately show ?thesis using FL by simp
  next
    case (FR l a k v c)
    have s: "sorted_keys (plug ctx (Nd l a k v c s))" using Cons.prems(1) FR by simp
    then have "sorted_keys (Nd l a k v c s)"
      by (auto simp: sorted_keys_def keys_of_plug sorted_wrt_append simp del: keys_of_simps)
    then have "k < x" using Cons.prems(2) by (auto simp: sorted_keys_Nd)
    moreover have "path_ok x ctx"
      by (rule Cons.IH [OF s]) (use Cons.prems(2) in simp)
    ultimately show ?thesis using FR by simp
  qed
qed

subsection \<open>The loops of Next and Prev\<close>

lemma Next_down_rep:
  "is_tree t par s \<Longrightarrow> s \<noteq> Lf \<Longrightarrow> Next_down t (ptr_of s) = Some (Some (hd (addrs s)))"
proof (induction s arbitrary: par)
  case Lf
  then show ?case by simp
next
  case (Nd l a k v c r)
  show ?case
  proof (cases l)
    case Lf
    with Nd.prems show ?thesis by (subst Next_down.simps) simp
  next
    case (Nd ll la lk lv lc lr)
    have "Next_down t (ptr_of (rbt.Nd l a k v c r)) = Next_down t (ptr_of l)"
      using Nd.prems Nd by (subst Next_down.simps) simp
    also have "\<dots> = Some (Some (hd (addrs l)))"
      by (rule Nd.IH(1) [of "Some a"]) (use Nd.prems Nd in simp_all)
    finally show ?thesis using Nd by (simp add: hd_append)
  qed
qed

lemma Prev_down_rep:
  "is_tree t par s \<Longrightarrow> s \<noteq> Lf \<Longrightarrow> Prev_down t (ptr_of s) = Some (Some (last (addrs s)))"
proof (induction s arbitrary: par)
  case Lf
  then show ?case by simp
next
  case (Nd l a k v c r)
  show ?case
  proof (cases r)
    case Lf
    with Nd.prems show ?thesis by (subst Prev_down.simps) simp
  next
    case (Nd rl ra rk rv rc rr)
    have "Prev_down t (ptr_of (rbt.Nd l a k v c r)) = Prev_down t (ptr_of r)"
      using Nd.prems Nd by (subst Prev_down.simps) simp
    also have "\<dots> = Some (Some (last (addrs r)))"
      by (rule Nd.IH(2) [of "Some a"]) (use Nd.prems Nd in simp_all)
    finally show ?thesis using Nd by simp
  qed
qed

lemma Next_up_rep:
  assumes "cmp_ok (Comparator t)" and "deref t node = Some n" and "path_ok (Key n) ctx"
  shows "is_ctx t ctx (Some c) \<Longrightarrow> deref t (Some c) = Some cn \<Longrightarrow> Parent cn = cpar ctx \<Longrightarrow>
         Next_up t node (Some c) = Some (case apost ctx of [] \<Rightarrow> None | b # _ \<Rightarrow> Some b)"
  using assms(3)
proof (induction ctx arbitrary: c cn)
  case Nil
  then show ?case by (subst Next_up.simps) simp
next
  case (Cons f ctx)
  show ?case
  proof (cases f)
    case (FL a k v col r)
    with Cons.prems assms(1,2) show ?thesis
      by (subst Next_up.simps) (simp add: less_imp_le)
  next
    case (FR l a k v col)
    have nle: "\<not> Key n \<le> k" using Cons.prems(4) FR by (simp add: not_le)
    have "Next_up t node (Some c) = Next_up t node (Some a)"
      using Cons.prems(1-3) assms(1,2) FR nle by (subst Next_up.simps) simp
    also have "\<dots> = Some (case apost ctx of [] \<Rightarrow> None | b # _ \<Rightarrow> Some b)"
      by (rule Cons.IH [of a "\<lparr>Key = k, Value = v, color = col, Left = ptr_of l,
            Right = Some c, Parent = cpar ctx\<rparr>"]) (use Cons.prems FR in simp_all)
    finally show ?thesis using FR by simp
  qed
qed

lemma Prev_up_rep:
  assumes "cmp_ok (Comparator t)" and "deref t node = Some n" and "path_ok (Key n) ctx"
  shows "is_ctx t ctx (Some c) \<Longrightarrow> deref t (Some c) = Some cn \<Longrightarrow> Parent cn = cpar ctx \<Longrightarrow>
         Prev_up t node (Some c) = Some (if apre ctx = [] then None else Some (last (apre ctx)))"
  using assms(3)
proof (induction ctx arbitrary: c cn)
  case Nil
  then show ?case by (subst Prev_up.simps) simp
next
  case (Cons f ctx)
  show ?case
  proof (cases f)
    case (FR l a k v col)
    with Cons.prems assms(1,2) show ?thesis
      by (subst Prev_up.simps) (simp add: less_imp_le)
  next
    case (FL a k v col r)
    have nle: "\<not> k \<le> Key n" using Cons.prems(4) FL by (simp add: not_le)
    have "Prev_up t node (Some c) = Prev_up t node (Some a)"
      using Cons.prems(1-3) assms(1,2) FL nle by (subst Prev_up.simps) simp
    also have "\<dots> = Some (if apre ctx = [] then None else Some (last (apre ctx)))"
      by (rule Cons.IH [of a "\<lparr>Key = k, Value = v, color = col, Left = Some c,
            Right = ptr_of r, Parent = cpar ctx\<rparr>"]) (use Cons.prems FL in simp_all)
    finally show ?thesis using FL by simp
  qed
qed

lemma Tree_Left_loop_rep:
  "is_tree t par s \<Longrightarrow>
   Tree_Left_loop t p (ptr_of s) = Some (if s = Lf then p else Some (hd (addrs s)))"
proof (induction s arbitrary: par p)
  case Lf
  then show ?case by (subst Tree_Left_loop.simps) simp
next
  case (Nd l a k v c r)
  have "Tree_Left_loop t p (ptr_of (Nd l a k v c r)) = Tree_Left_loop t (Some a) (ptr_of l)"
    using Nd.prems by (subst Tree_Left_loop.simps) simp
  also have "\<dots> = Some (if l = Lf then Some a else Some (hd (addrs l)))"
    by (rule Nd.IH(1) [of "Some a"]) (use Nd.prems in simp)
  finally show ?case by (cases l) (simp_all add: hd_append)
qed

lemma Tree_Right_loop_rep:
  "is_tree t par s \<Longrightarrow>
   Tree_Right_loop t p (ptr_of s) = Some (if s = Lf then p else Some (last (addrs s)))"
proof (induction s arbitrary: par p)
  case Lf
  then show ?case by (subst Tree_Right_loop.simps) simp
next
  case (Nd l a k v c r)
  have "Tree_Right_loop t p (ptr_of (Nd l a k v c r)) = Tree_Right_loop t (Some a) (ptr_of r)"
    using Nd.prems by (subst Tree_Right_loop.simps) simp
  also have "\<dots> = Some (if r = Lf then Some a else Some (last (addrs r)))"
    by (rule Nd.IH(2) [of "Some a"]) (use Nd.prems in simp)
  finally show ?case by (cases r) simp_all
qed

lemma addrs_Nil [simp]: "(addrs T = []) = (T = Lf)"
  by (cases T) auto

lemma Tree_Left_rep:
  "tree_inv t T \<Longrightarrow> Tree_Left t = Some (case addrs T of [] \<Rightarrow> None | b # _ \<Rightarrow> Some b)"
  using Tree_Left_loop_rep [of t None T None]
  by (cases "addrs T") (auto simp: Tree_Left_def tree_inv_def rep_def)

lemma Tree_Right_rep:
  "tree_inv t T \<Longrightarrow> Tree_Right t = Some (if T = Lf then None else Some (last (addrs T)))"
  using Tree_Right_loop_rep [of t None T None]
  by (auto simp: Tree_Right_def tree_inv_def rep_def)

text \<open>The position of a node in the in-order sequence of addresses.\<close>

lemma distinct_split_unique:
  "distinct (xs @ a # ys) \<Longrightarrow> xs @ a # ys = xs' @ a # ys' \<Longrightarrow> xs = xs' \<and> ys = ys'"
proof -
  assume d: "distinct (xs @ a # ys)" and e: "xs @ a # ys = xs' @ a # ys'"
  from d have "a \<notin> set xs" "a \<notin> set ys" by auto
  then show ?thesis using append_Cons_eq_iff [of a xs ys xs' ys'] e by blast
qed

lemma Next_between:
  assumes "tree_inv t T" and "addrs T = xs @ a # ys"
  shows "Next t \<lparr>node' = Some a, position' = pos_between\<rparr> =
           Some (case ys of [] \<Rightarrow> (\<lparr>node' = None, position' = pos_end\<rparr>, False)
                 | b # _ \<Rightarrow> (\<lparr>node' = Some b, position' = pos_between\<rparr>, True))"
proof -
  have inv: "rep t T" "sorted_keys T" "cmp_ok (Comparator t)"
    using assms(1) by (simp_all add: tree_inv_def)
  have "a \<in> set (addrs T)" using assms(2) by simp
  then obtain ctx l k v c r where T: "T = plug ctx (Nd l a k v c r)"
    using addr_focus by blast
  have rp: "is_ctx t ctx (Some a)" "is_tree t (cpar ctx) (Nd l a k v c r)"
    using inv(1) unfolding T rep_plug by simp_all
  have d: "distinct (addrs T)" using inv(1) by (simp add: rep_def)
  have "addrs T = (apre ctx @ addrs l) @ a # (addrs r @ apost ctx)"
    unfolding T by (simp add: addrs_plug_list)
  then have e: "xs @ a # ys = (apre ctx @ addrs l) @ a # (addrs r @ apost ctx)"
    using assms(2) by metis
  have d': "distinct (xs @ a # ys)" using d assms(2) by metis
  have ys: "ys = addrs r @ apost ctx"
    using distinct_split_unique [OF d' e] by blast
  have n: "deref t (Some a) = Some \<lparr>Key = k, Value = v, color = c, Left = ptr_of l,
             Right = ptr_of r, Parent = cpar ctx\<rparr>"
    using rp(2) by simp
  show ?thesis
  proof (cases r)
    case (Nd rl ra rk rv rc rr)
    have "Next_down t (ptr_of r) = Some (Some (hd (addrs r)))"
      by (rule Next_down_rep [of t "Some a"]) (use rp(2) Nd in simp_all)
    then show ?thesis
      using n Nd ys by (cases "addrs rl") (simp_all add: Next_def)
  next
    case Lf
    show ?thesis
    proof (cases ctx)
      case Nil
      with n Lf ys show ?thesis by (simp add: Next_def)
    next
      case (Cons f ctx')
      have po: "path_ok k ctx"
        by (rule path_ok_sorted [of ctx "Nd l a k v c r"]) (use inv(2) T in simp_all)
      have "Next_up t (Some a) (Some a) = Some (case apost ctx of [] \<Rightarrow> None | b # _ \<Rightarrow> Some b)"
        by (rule Next_up_rep [OF inv(3) n _ rp(1) n]) (use po in simp_all)
      then show ?thesis
        using n Lf ys Cons by (cases "apost ctx") (simp_all add: Next_def)
    qed
  qed
qed

lemma Prev_between:
  assumes "tree_inv t T" and "addrs T = xs @ a # ys"
  shows "Prev t \<lparr>node' = Some a, position' = pos_between\<rparr> =
           Some (if xs = [] then (\<lparr>node' = None, position' = pos_begin\<rparr>, False)
                 else (\<lparr>node' = Some (last xs), position' = pos_between\<rparr>, True))"
proof -
  have inv: "rep t T" "sorted_keys T" "cmp_ok (Comparator t)"
    using assms(1) by (simp_all add: tree_inv_def)
  have "a \<in> set (addrs T)" using assms(2) by simp
  then obtain ctx l k v c r where T: "T = plug ctx (Nd l a k v c r)"
    using addr_focus by blast
  have rp: "is_ctx t ctx (Some a)" "is_tree t (cpar ctx) (Nd l a k v c r)"
    using inv(1) unfolding T rep_plug by simp_all
  have d: "distinct (addrs T)" using inv(1) by (simp add: rep_def)
  have "addrs T = (apre ctx @ addrs l) @ a # (addrs r @ apost ctx)"
    unfolding T by (simp add: addrs_plug_list)
  then have e: "xs @ a # ys = (apre ctx @ addrs l) @ a # (addrs r @ apost ctx)"
    using assms(2) by metis
  have d': "distinct (xs @ a # ys)" using d assms(2) by metis
  have xs: "xs = apre ctx @ addrs l"
    using distinct_split_unique [OF d' e] by blast
  have n: "deref t (Some a) = Some \<lparr>Key = k, Value = v, color = c, Left = ptr_of l,
             Right = ptr_of r, Parent = cpar ctx\<rparr>"
    using rp(2) by simp
  show ?thesis
  proof (cases l)
    case (Nd ll la lk lv lc lr)
    have "Prev_down t (ptr_of l) = Some (Some (last (addrs l)))"
      by (rule Prev_down_rep [of t "Some a"]) (use rp(2) Nd in simp_all)
    then show ?thesis
      using n Nd xs by (simp add: Prev_def)
  next
    case Lf
    show ?thesis
    proof (cases ctx)
      case Nil
      with n Lf xs show ?thesis by (simp add: Prev_def)
    next
      case (Cons f ctx')
      have po: "path_ok k ctx"
        by (rule path_ok_sorted [of ctx "Nd l a k v c r"]) (use inv(2) T in simp_all)
      have "Prev_up t (Some a) (Some a) = Some (if apre ctx = [] then None else Some (last (apre ctx)))"
        by (rule Prev_up_rep [OF inv(3) n _ rp(1) n]) (use po in simp_all)
      then show ?thesis
        using n Lf xs Cons by (simp add: Prev_def)
    qed
  qed
qed

lemma map_fst_node_keys [simp]: "map fst (node_keys T) = addrs T"
  by (induction T) auto

lemma map_snd_node_keys [simp]: "map snd (node_keys T) = keys_of T"
  by (induction T) auto

lemma length_node_keys [simp]: "length (node_keys T) = length (addrs T)"
  using map_fst_node_keys [of T] by (metis length_map)

lemma length_keys_of [simp]: "length (keys_of T) = length (addrs T)"
  using map_snd_node_keys [of T] length_node_keys [of T] by (metis length_map)

text \<open>The iterator that has just visited the addresses \<open>xs\<close> of the in-order sequence.\<close>

definition it_at :: "nat list \<Rightarrow> Iterator" where
  "it_at xs = (if xs = [] then \<lparr>node' = None, position' = pos_begin\<rparr>
               else \<lparr>node' = Some (last xs), position' = pos_between\<rparr>)"

lemma Next_it_at:
  assumes "tree_inv t T" and "addrs T = xs @ ys"
  shows "Next t (it_at xs) =
           Some (case ys of [] \<Rightarrow> (\<lparr>node' = None, position' = pos_end\<rparr>, False)
                 | b # _ \<Rightarrow> (it_at (xs @ [b]), True))"
proof (cases "xs = []")
  case True
  with assms show ?thesis
    using Tree_Left_rep [OF assms(1)]
    by (cases ys) (simp_all add: it_at_def Next_def)
next
  case False
  then obtain xs0 a where xs: "xs = xs0 @ [a]"
    by (metis append_butlast_last_id)
  have "addrs T = xs0 @ a # ys" using assms(2) xs by simp
  from Next_between [OF assms(1) this] xs show ?thesis
    by (cases ys) (simp_all add: it_at_def)
qed

lemma Keys_loop_rep:
  assumes "tree_inv t T"
  shows "node_keys T = P @ Q \<Longrightarrow> length ks = length (node_keys T) \<Longrightarrow>
         Keys_loop t (it_at (map fst P)) (length P) ks =
           Some (take (length P) ks @ map (\<lambda>p. Some (snd p)) Q)"
proof (induction Q arbitrary: P ks)
  case Nil
  have "addrs T = map fst P @ []"
    using Nil.prems(1) map_fst_node_keys [of T] by simp
  from Next_it_at [OF assms this] Nil.prems show ?case
    by (subst Keys_loop.simps) simp
next
  case (Cons q Q)
  obtain b kb where q: "q = (b, kb)" by (cases q)
  have it: "is_tree t None T" using assms by (simp add: tree_inv_def rep_def)
  have "(b, kb) \<in> set (node_keys T)" using Cons.prems(1) q by simp
  then obtain n where n: "deref t (Some b) = Some n" "Key n = kb"
    using node_keys_deref [OF it] by blast
  have a: "addrs T = map fst P @ b # map fst Q"
    using Cons.prems(1) q map_fst_node_keys [of T] by simp
  have nx: "Next t (it_at (map fst P)) = Some (it_at (map fst P @ [b]), True)"
    using Next_it_at [OF assms a] by simp
  have len: "length P < length ks" using Cons.prems by simp
  have "Keys_loop t (it_at (map fst P)) (length P) ks =
          Keys_loop t (it_at (map fst (P @ [q]))) (length (P @ [q])) (ks[length P := Some kb])"
    using nx n len q by (subst Keys_loop.simps) (simp add: Iterator_Key_def it_at_def)
  also have "\<dots> = Some (take (length (P @ [q])) (ks[length P := Some kb]) @
                       map (\<lambda>p. Some (snd p)) Q)"
    by (rule Cons.IH) (use Cons.prems in simp_all)
  also have "take (length (P @ [q])) (ks[length P := Some kb]) = take (length P) ks @ [Some kb]"
    using len by (simp add: take_Suc_conv_app_nth)
  finally show ?case using q by simp
qed

lemma Keys_rep:
  assumes "tree_inv t T"
  shows "Keys t = Some (map Some (keys_of T))"
proof -
  have sz: "size' t = int (length (addrs T))" using assms by (simp add: tree_inv_def)
  have "Keys_loop t (it_at []) 0 (replicate (length (addrs T)) None) =
        Some (map (\<lambda>p. Some (snd p)) (node_keys T))"
    using Keys_loop_rep [OF assms, of "[]" "node_keys T" "replicate (length (addrs T)) None"]
    by simp
  moreover have "map (\<lambda>p. Some (snd p)) (node_keys T) = map Some (map snd (node_keys T))"
    by (simp only: map_map comp_def)
  then have "map (\<lambda>p. Some (snd p)) (node_keys T) = map Some (keys_of T)"
    by (simp only: map_snd_node_keys)
  ultimately show ?thesis
    using sz by (simp add: Keys_def Tree_Iterator_def it_at_def)
qed

lemma keys_of_stored:
  assumes "is_tree t par T"
  shows "set (keys_of T) = {k. \<exists>a\<in>set (addrs T). \<exists>n. deref t (Some a) = Some n \<and> Key n = k}"
  using assms
proof (induction T arbitrary: par)
  case Lf
  then show ?case by simp
next
  case (Nd l a k v c r)
  have l: "set (keys_of l) = {k. \<exists>a\<in>set (addrs l). \<exists>n. deref t (Some a) = Some n \<and> Key n = k}"
    by (rule Nd.IH(1) [of "Some a"]) (use Nd.prems in simp)
  have r: "set (keys_of r) = {k. \<exists>a\<in>set (addrs r). \<exists>n. deref t (Some a) = Some n \<and> Key n = k}"
    by (rule Nd.IH(2) [of "Some a"]) (use Nd.prems in simp)
  have n: "deref t (Some a) = Some \<lparr>Key = k, Value = v, color = c, Left = ptr_of l,
             Right = ptr_of r, Parent = par\<rparr>"
    using Nd.prems by simp
  show ?case
    unfolding keys_of_simps addrs.simps set_append set_simps l r using n by auto
qed

text \<open>
  C7. \<open>Keys t\<close> returns the keys of the tree in their in-order sequence, every slot of the
  slice written: the sequence is strictly increasing under the comparator, its length is
  \<open>Size t\<close>, and its elements are exactly the keys stored in the nodes of the tree.
\<close>

theorem Keys_sorted_complete:
  assumes "tree_inv t T"
  shows "\<exists>ks. Keys t = Some (map Some ks) \<and>
           sorted_wrt (\<lambda>a b. Comparator t a b < 0) ks \<and>
           int (length ks) = Size t \<and>
           set ks = {k. \<exists>a\<in>set (addrs T). \<exists>n. deref t (Some a) = Some n \<and> Key n = k}"
proof -
  have inv: "is_tree t None T" "sorted_keys T" "cmp_ok (Comparator t)"
    "size' t = int (length (addrs T))"
    using assms by (simp_all add: tree_inv_def rep_def)
  have "sorted_wrt (\<lambda>a b. Comparator t a b < 0) (keys_of T)"
    using inv(2,3) by (simp add: sorted_keys_def)
  then show ?thesis
    using Keys_rep [OF assms] keys_of_stored [OF inv(1)] inv(4)
    by (intro exI [of _ "keys_of T"]) (simp add: Size_def)
qed

theorem Keys_sorted_complete_witness:
  "tree_inv \<lparr>Root = Some 1, size' = 3, Comparator = IntComparator,
     nodes = [\<lparr>Key = 1, Value = ''a'', color = red, Left = None, Right = None, Parent = Some 1\<rparr>,
              \<lparr>Key = 2, Value = ''b'', color = black, Left = Some 0, Right = Some 2, Parent = None\<rparr>,
              \<lparr>Key = 3, Value = ''c'', color = red, Left = None, Right = None, Parent = Some 1\<rparr>]\<rparr>
     (Nd (Nd Lf 0 1 ''a'' red Lf) 1 2 ''b'' black (Nd Lf 2 3 ''c'' red Lf)) \<and>
   Keys \<lparr>Root = Some 1, size' = 3, Comparator = IntComparator,
     nodes = [\<lparr>Key = 1, Value = ''a'', color = red, Left = None, Right = None, Parent = Some 1\<rparr>,
              \<lparr>Key = 2, Value = ''b'', color = black, Left = Some 0, Right = Some 2, Parent = None\<rparr>,
              \<lparr>Key = 3, Value = ''c'', color = red, Left = None, Right = None, Parent = Some 1\<rparr>]\<rparr>
     = Some [Some 1, Some 2, Some 3]"
proof -
  let ?t = "\<lparr>Root = Some 1, size' = 3, Comparator = IntComparator,
     nodes = [\<lparr>Key = 1::int, Value = ''a'', color = red, Left = None, Right = None, Parent = Some 1\<rparr>,
              \<lparr>Key = 2, Value = ''b'', color = black, Left = Some 0, Right = Some 2, Parent = None\<rparr>,
              \<lparr>Key = 3, Value = ''c'', color = red, Left = None, Right = None, Parent = Some 1\<rparr>]\<rparr>"
  let ?T = "Nd (Nd Lf 0 (1::int) ''a'' red Lf) 1 2 ''b'' black (Nd Lf 2 3 ''c'' red Lf)"
  have h: "tree_inv ?t ?T"
    by (simp add: tree_inv_def rep_def rbt_inv_def sorted_keys_def deref_def cmp_ok_IntComparator)
  have e: "Keys ?t = Some [Some 1, Some 2, Some 3]"
    using Keys_rep [OF h] by simp
  from Keys_sorted_complete [OF h] h e show ?thesis by simp
qed

end
